theory Spec2Isabelle
  imports Main
begin

section \<open>pytermgui.parser: markup and ANSI tokenizers\<close>

text \<open>
  A shallow embedding of \<^verbatim>\<open>src/pytermgui/parser.py\<close>. Python strings are lists of
  characters; a character stands for the code point of the same number
  (U+0000 to U+00FF). Positions are natural numbers. A generator is modelled by the list of
  the tokens it yields, paired with the exception that ends it early, if any.
\<close>

subsection \<open>Exceptions\<close>

text \<open>
  \<open>SyntaxError\<close> carries the variable part of the message: the offending tag
  (\<^verbatim>\<open>Markup tag "{tag}" is not recognized.\<close>) or the offending code
  (\<^verbatim>\<open>Invalid ANSI code "{code}" in token ...\<close>). \<open>KeyError\<close> carries the missing key.
\<close>

datatype error =
    SyntaxError string
  | KeyError string
  | IndexError
  | ValueError
  | UnboundLocalError
  | AssertionError

subsection \<open>Python string primitives\<close>

definition ESC :: char where
  "ESC = CHR 0x1B"

definition BSL :: char where
  \<comment> \<open>the backslash character\<close>
  "BSL = CHR 0x5C"

definition NL :: char where
  "NL = CHR 0x0A"

definition isdigit :: "char \<Rightarrow> bool" where
  \<comment> \<open>\<^verbatim>\<open>str.isdigit\<close> on one character: the ASCII digits and the superscripts
      U+00B2, U+00B3, U+00B9\<close>
  "isdigit c \<longleftrightarrow> c \<in> set ''0123456789'' \<or> c \<in> {CHR 0xB2, CHR 0xB3, CHR 0xB9}"

definition str_isdigit :: "string \<Rightarrow> bool" where
  \<comment> \<open>\<^verbatim>\<open>str.isdigit\<close>: false on the empty string\<close>
  "str_isdigit s \<longleftrightarrow> s \<noteq> [] \<and> list_all isdigit s"

definition isspace :: "char \<Rightarrow> bool" where
  \<comment> \<open>\<^verbatim>\<open>str.isspace\<close> on one character\<close>
  "isspace c \<longleftrightarrow> c \<in> {CHR 0x09, CHR 0x0A, CHR 0x0B, CHR 0x0C, CHR 0x0D,
     CHR 0x1C, CHR 0x1D, CHR 0x1E, CHR 0x1F, CHR 0x20, CHR 0x85, CHR 0xA0}"

definition startswith :: "string \<Rightarrow> string \<Rightarrow> bool" where
  "startswith s p \<longleftrightarrow> take (length p) s = p"

definition endswith :: "string \<Rightarrow> string \<Rightarrow> bool" where
  "endswith s p \<longleftrightarrow> length p \<le> length s \<and> drop (length s - length p) s = p"

definition count_char :: "string \<Rightarrow> char \<Rightarrow> nat" where
  \<comment> \<open>\<^verbatim>\<open>str.count\<close> of a one-character string\<close>
  "count_char s c = length (filter (\<lambda>x. x = c) s)"

definition lstrip :: "char \<Rightarrow> string \<Rightarrow> string" where
  \<comment> \<open>\<^verbatim>\<open>str.lstrip\<close> of a one-character set\<close>
  "lstrip c s = dropWhile (\<lambda>x. x = c) s"

fun join :: "string \<Rightarrow> string list \<Rightarrow> string" where
  "join sep [] = []"
| "join sep [x] = x"
| "join sep (x # y # ys) = x @ sep @ join sep (y # ys)"

fun split_on :: "char \<Rightarrow> string \<Rightarrow> string list" where
  \<comment> \<open>\<^verbatim>\<open>str.split(sep)\<close> with a one-character separator: empty fields are kept\<close>
  "split_on sep [] = [[]]"
| "split_on sep (c # cs) =
     (if c = sep then [] # split_on sep cs
      else (case split_on sep cs of
              [] \<Rightarrow> [[c]]
            | w # ws \<Rightarrow> (c # w) # ws))"

fun split_ws :: "string \<Rightarrow> string list" where
  \<comment> \<open>\<^verbatim>\<open>str.split()\<close>: split on runs of whitespace, no empty words\<close>
  "split_ws [] = []"
| "split_ws (c # cs) =
     (if isspace c then split_ws cs
      else (case cs of
              [] \<Rightarrow> [[c]]
            | d # ds \<Rightarrow>
                if isspace d then [c] # split_ws cs
                else (case split_ws cs of
                        [] \<Rightarrow> [[c]]
                      | w # ws \<Rightarrow> (c # w) # ws)))"

definition digit_char :: "nat \<Rightarrow> char" where
  "digit_char d = ''0123456789'' ! d"

fun str_nat :: "nat \<Rightarrow> string" where
  \<comment> \<open>\<^verbatim>\<open>str(n)\<close> of a non-negative integer\<close>
  "str_nat n = (if n < 10 then [digit_char n] else str_nat (n div 10) @ [digit_char (n mod 10)])"

declare str_nat.simps [simp del]

fun list_index :: "'a list \<Rightarrow> 'a \<Rightarrow> nat option" where
  \<comment> \<open>\<^verbatim>\<open>x in xs\<close> and \<^verbatim>\<open>xs.index(x)\<close>\<close>
  "list_index [] x = None"
| "list_index (y # ys) x =
     (if x = y then Some 0 else map_option Suc (list_index ys x))"

definition digit_val :: "char \<Rightarrow> nat option" where
  \<comment> \<open>the value of an ASCII decimal digit\<close>
  "digit_val c = list_index ''0123456789'' c"

fun int_digits :: "nat \<Rightarrow> string \<Rightarrow> nat option" where
  \<comment> \<open>the digits of an integer literal after the first digit: a single underscore may
      separate two digits\<close>
  "int_digits acc [] = Some acc"
| "int_digits acc [c] =
     (case digit_val c of None \<Rightarrow> None | Some d \<Rightarrow> Some (acc * 10 + d))"
| "int_digits acc (c # d # cs) =
     (if c = CHR ''_'' then
        (case digit_val d of None \<Rightarrow> None | Some v \<Rightarrow> int_digits (acc * 10 + v) cs)
      else (case digit_val c of None \<Rightarrow> None | Some v \<Rightarrow> int_digits (acc * 10 + v) (d # cs)))"

definition int_space :: "char \<Rightarrow> bool" where
  \<comment> \<open>the whitespace that \<^verbatim>\<open>int\<close> skips around a literal: the ASCII whitespace of C
      (tab to carriage return, and the space) and, beyond ASCII, U+0085 and U+00A0;
      unlike \<^verbatim>\<open>str.isspace\<close>, not U+001C to U+001F\<close>
  "int_space c \<longleftrightarrow> c \<in> {CHR 0x09, CHR 0x0A, CHR 0x0B, CHR 0x0C, CHR 0x0D, CHR 0x20,
     CHR 0x85, CHR 0xA0}"

definition strip_int_space :: "string \<Rightarrow> string" where
  "strip_int_space s = rev (dropWhile int_space (rev (dropWhile int_space s)))"

definition int_max_str_digits :: nat where
  \<comment> \<open>the default of \<^verbatim>\<open>sys.int_max_str_digits\<close>\<close>
  "int_max_str_digits = 4300"

definition py_int :: "string \<Rightarrow> int option" where
  \<comment> \<open>\<^verbatim>\<open>int(s)\<close>: surrounding whitespace, an optional sign, decimal digits with single
      underscores between them, at most \<^verbatim>\<open>int_max_str_digits\<close> digits; \<open>None\<close> is
      \<^verbatim>\<open>ValueError\<close>\<close>
  "py_int s =
     (let t = strip_int_space s;
          neg = (t \<noteq> [] \<and> hd t = CHR ''-'');
          u = (if t \<noteq> [] \<and> (hd t = CHR ''-'' \<or> hd t = CHR ''+'') then tl t else t)
      in case u of
           [] \<Rightarrow> None
         | c # cs \<Rightarrow>
             (case digit_val c of
                None \<Rightarrow> None
              | Some d \<Rightarrow>
                  (case int_digits d cs of
                     None \<Rightarrow> None
                   | Some n \<Rightarrow>
                       if length (filter (\<lambda>x. x \<noteq> CHR ''_'') u) > int_max_str_digits then None
                       else Some (if neg then - int n else int n))))"

subsection \<open>Module constants\<close>

definition NAMES :: "string list" where
  "NAMES = [''/'', ''bold'', ''dim'', ''italic'', ''underline'', ''blink'', ''blink2'',
            ''inverse'', ''invisible'', ''strikethrough'']"

definition UNSET_MAP :: "(string \<times> string) list" where
  \<comment> \<open>the dictionary in insertion order\<close>
  "UNSET_MAP = [(''/bold'', ''22''), (''/dim'', ''22''), (''/italic'', ''23''),
                (''/underline'', ''24''), (''/blink'', ''25''), (''/blink2'', ''26''),
                (''/inverse'', ''27''), (''/invisible'', ''28''), (''/strikethrough'', ''29''),
                (''/fg'', ''39''), (''/bg'', ''49'')]"

text \<open>
  The object \<^verbatim>\<open>foreground\<close> of \<^verbatim>\<open>ansi_interface\<close> is a parameter of the model:
  its table \<^verbatim>\<open>names\<close> in iteration order, from a color name to its palette index (a
  non-negative integer), and its method \<^verbatim>\<open>translate_hex\<close>, which gives three color
  components or raises.
\<close>

record foreground =
  names :: "(string \<times> nat) list"
  translate_hex :: "string \<Rightarrow> error + (nat \<times> nat \<times> nat)"

definition reset :: string where
  \<comment> \<open>Modelled from the spec: \<^verbatim>\<open>reset()\<close> of \<^verbatim>\<open>ansi_interface\<close> is not in the source;
      it returns the canonical full-reset escape sequence \<^verbatim>\<open>ESC [ 0 m\<close>.\<close>
  "reset = ESC # ''[0m''"

subsection \<open>Color resolver\<close>

definition handle_color :: "foreground \<Rightarrow> string \<Rightarrow> error + (string \<times> bool) option" where
  \<comment> \<open>\<^verbatim>\<open>_handle_color\<close>\<close>
  "handle_color fg tag =
     (if \<not> list_all (\<lambda>c. isdigit c \<or> c \<in> set ''#;@abcdef'') tag then Inr None
      else
        let background = startswith tag ''@'';
            pretext = (if background then ''48;'' else ''38;'');
            tag1 = (if background then drop 1 tag else tag);
            hexcolor = startswith tag1 ''#'';
            color_pre = (if count_char tag1 CHR '';'' < 2 \<and> \<not> hexcolor then ''5;'' else ''2;'')
        in if hexcolor then
             (case translate_hex fg tag1 of
                Inl e \<Rightarrow> Inl e
              | Inr (r, g, b) \<Rightarrow>
                  Inr (Some (pretext @ color_pre @ join '';'' [str_nat r, str_nat g, str_nat b],
                             background)))
           else Inr (Some (pretext @ color_pre @ tag1, background)))"

definition handle_named_color :: "foreground \<Rightarrow> string \<Rightarrow> error + (string \<times> bool) option" where
  \<comment> \<open>\<^verbatim>\<open>_handle_named_color\<close>\<close>
  "handle_named_color fg tag =
     (if map_of (names fg) (lstrip CHR ''@'' tag) = None then Inr None
      else
        let background = (if startswith tag ''@'' then ''@'' else '''');
            tag1 = (if startswith tag ''@'' then drop 1 tag else tag)
        in case map_of (names fg) tag1 of
             None \<Rightarrow> Inl (KeyError tag1)
           | Some v \<Rightarrow> handle_color fg (background @ str_nat v))"

subsection \<open>Tokens\<close>

datatype TokenAttribute = CLEAR | COLOR | STYLE | BACKGROUND_COLOR

record Token =
  start :: nat
  end' :: nat
  plain :: "string option"
  code :: "string option"
  attribute :: "TokenAttribute option"

definition plain_token :: "nat \<Rightarrow> nat \<Rightarrow> string \<Rightarrow> Token" where
  \<comment> \<open>\<^verbatim>\<open>Token(start, end, plain=p)\<close>\<close>
  "plain_token s e p = \<lparr>start = s, end' = e, plain = Some p, code = None, attribute = None\<rparr>"

definition code_token :: "nat \<Rightarrow> nat \<Rightarrow> string option \<Rightarrow> TokenAttribute option \<Rightarrow> Token" where
  \<comment> \<open>\<^verbatim>\<open>Token(start, end, code=c, attribute=a)\<close>\<close>
  "code_token s e c a = \<lparr>start = s, end' = e, plain = None, code = c, attribute = a\<rparr>"

definition to_name :: "foreground \<Rightarrow> Token \<Rightarrow> error + string" where
  "to_name fg t =
     (case plain t of
        Some p \<Rightarrow> Inr p
      | None \<Rightarrow>
          (case code t of
             None \<Rightarrow> Inl AssertionError
           | Some c \<Rightarrow>
               if str_isdigit c then
                 (case find (\<lambda>(key, v). v = c) UNSET_MAP of
                    Some (key, v) \<Rightarrow> Inr key
                  | None \<Rightarrow>
                      (case py_int c of
                         None \<Rightarrow> Inl ValueError
                       | Some index \<Rightarrow>
                           if index < int (length NAMES) then Inr (NAMES ! nat index)
                           else Inl IndexError))
               else
                 let numbers = split_on CHR '';'' c;
                     out = (if hd numbers = ''48'' then ''@'' else '''')
                 in if length numbers < 3 then Inl (SyntaxError c)
                    else
                      (case py_int (numbers ! 2) of
                         None \<Rightarrow> Inl ValueError
                       | Some simple \<Rightarrow>
                           (case find (\<lambda>(name, fore_value). int fore_value = simple) (names fg) of
                              Some (name, fore_value) \<Rightarrow> Inr (out @ name)
                            | None \<Rightarrow> Inr (out @ join '';'' (drop 2 numbers))))))"

definition to_sequence :: "Token \<Rightarrow> error + string" where
  "to_sequence t =
     (case code t of
        None \<Rightarrow> (case plain t of None \<Rightarrow> Inl AssertionError | Some p \<Rightarrow> Inr p)
      | Some c \<Rightarrow> Inr (ESC # ''['' @ c @ ''m''))"

subsection \<open>Regular expressions\<close>

text \<open>
  \<^verbatim>\<open>RE_TAGS = ((\\*)\[([a-z0-9!#@\/].*?)\])\<close>. A match attempt at the head of a string:
  the greedy run of backslashes, an opening bracket, one character of the class, then the
  shortest run of characters other than newline that is followed by a closing bracket.
  Giving back backslashes cannot help (the next character would be a backslash, not the
  bracket), so the attempt fails when the greedy one does. The result is the groups
  \<^verbatim>\<open>escapes\<close> and \<^verbatim>\<open>tag_text\<close> and the text after the match.
\<close>

definition tag_start_char :: "char \<Rightarrow> bool" where
  "tag_start_char c \<longleftrightarrow> c \<in> set ''abcdefghijklmnopqrstuvwxyz0123456789!#@/''"

fun until_bracket :: "string \<Rightarrow> (string \<times> string) option" where
  \<comment> \<open>\<^verbatim>\<open>.*?\]\<close>\<close>
  "until_bracket [] = None"
| "until_bracket (c # cs) =
     (if c = CHR '']'' then Some ([], cs)
      else if c = NL then None
      else (case until_bracket cs of
              None \<Rightarrow> None
            | Some (body, rest) \<Rightarrow> Some (c # body, rest)))"

definition match_tags :: "string \<Rightarrow> (string \<times> string \<times> string) option" where
  "match_tags xs =
     (let escapes = takeWhile (\<lambda>c. c = BSL) xs
      in case dropWhile (\<lambda>c. c = BSL) xs of
           b # c # cs \<Rightarrow>
             if b = CHR ''['' \<and> tag_start_char c then
               (case until_bracket cs of
                  None \<Rightarrow> None
                | Some (body, rest) \<Rightarrow> Some (escapes, c # body, rest))
             else None
         | _ \<Rightarrow> None)"

lemma until_bracket_shorter:
  "until_bracket cs = Some (body, rest) \<Longrightarrow> length rest < length cs"
  by (induction cs arbitrary: body) (auto split: if_splits option.splits)

lemma match_tags_shorter:
  assumes "match_tags xs = Some (escapes, tag_text, rest)"
  shows "length rest < length xs"
proof -
  have le: "length (dropWhile (\<lambda>c. c = BSL) xs) \<le> length xs"
    by (rule length_dropWhile_le)
  from assms obtain b c cs body where
    d: "dropWhile (\<lambda>c. c = BSL) xs = b # c # cs" and u: "until_bracket cs = Some (body, rest)"
    by (auto simp: match_tags_def Let_def split: list.splits if_splits option.splits)
  from until_bracket_shorter [OF u] d le show ?thesis by simp
qed

text \<open>
  \<^verbatim>\<open>RE_TAGS.finditer\<close>: the matches from left to right, each searched from the end of
  the one before; a match is \<open>(start, end, escapes, tag_text)\<close>. The first argument is the
  position of the second in the whole text.
\<close>

function finditer_tags :: "nat \<Rightarrow> string \<Rightarrow> (nat \<times> nat \<times> string \<times> string) list" where
  "finditer_tags pos xs =
     (if xs = [] then []
      else (case match_tags xs of
              None \<Rightarrow> finditer_tags (pos + 1) (tl xs)
            | Some (escapes, tag_text, rest) \<Rightarrow>
                (pos, pos + (length xs - length rest), escapes, tag_text)
                  # finditer_tags (pos + (length xs - length rest)) rest))"
  by pat_completeness auto
termination
  by (relation "measure (\<lambda>(pos, xs). length xs)") (auto dest: match_tags_shorter)

declare finditer_tags.simps [simp del]

text \<open>
  \<^verbatim>\<open>RE_ANSI = (?:\x1b\[(.*?)m)|(?:\x1b\](.*?)\x1b\\)\<close>. The two alternatives differ
  in their second character, so at most one applies. The result is group 1 (absent when
  the second alternative matched) and the text after the match.
\<close>

fun until_m :: "string \<Rightarrow> (string \<times> string) option" where
  \<comment> \<open>\<^verbatim>\<open>(.*?)m\<close>\<close>
  "until_m [] = None"
| "until_m (c # cs) =
     (if c = CHR ''m'' then Some ([], cs)
      else if c = NL then None
      else (case until_m cs of
              None \<Rightarrow> None
            | Some (body, rest) \<Rightarrow> Some (c # body, rest)))"

fun until_st :: "string \<Rightarrow> (string \<times> string) option" where
  \<comment> \<open>\<^verbatim>\<open>(.*?)\x1b\\\<close>\<close>
  "until_st [] = None"
| "until_st [c] = None"
| "until_st (c # d # cs) =
     (if c = ESC \<and> d = BSL then Some ([], cs)
      else if c = NL then None
      else (case until_st (d # cs) of
              None \<Rightarrow> None
            | Some (body, rest) \<Rightarrow> Some (c # body, rest)))"

definition match_ansi :: "string \<Rightarrow> (string option \<times> string) option" where
  "match_ansi xs =
     (case xs of
        e # b # cs \<Rightarrow>
          if e = ESC \<and> b = CHR ''['' then
            (case until_m cs of
               None \<Rightarrow> None
             | Some (sgr, rest) \<Rightarrow> Some (Some sgr, rest))
          else if e = ESC \<and> b = CHR '']'' then
            (case until_st cs of
               None \<Rightarrow> None
             | Some (osc, rest) \<Rightarrow> Some (None, rest))
          else None
      | _ \<Rightarrow> None)"

lemma until_m_shorter:
  "until_m cs = Some (body, rest) \<Longrightarrow> length rest < length cs"
  by (induction cs arbitrary: body) (auto split: if_splits option.splits)

lemma until_st_shorter:
  "until_st cs = Some (body, rest) \<Longrightarrow> length rest < length cs"
  by (induction cs arbitrary: body rule: until_st.induct) (auto split: if_splits option.splits)

lemma match_ansi_shorter:
  "match_ansi xs = Some (sgr, rest) \<Longrightarrow> length rest < length xs"
  by (auto simp: match_ansi_def split: list.splits if_splits option.splits
           dest!: until_m_shorter until_st_shorter)

function finditer_ansi :: "nat \<Rightarrow> string \<Rightarrow> (nat \<times> nat \<times> string option) list" where
  "finditer_ansi pos xs =
     (if xs = [] then []
      else (case match_ansi xs of
              None \<Rightarrow> finditer_ansi (pos + 1) (tl xs)
            | Some (sgr, rest) \<Rightarrow>
                (pos, pos + (length xs - length rest), sgr)
                  # finditer_ansi (pos + (length xs - length rest)) rest))"
  by pat_completeness auto
termination
  by (relation "measure (\<lambda>(pos, xs). length xs)") (auto dest: match_ansi_shorter)

declare finditer_ansi.simps [simp del]

subsection \<open>Tokenizers\<close>

definition slice :: "string \<Rightarrow> nat \<Rightarrow> nat \<Rightarrow> string" where
  \<comment> \<open>\<^verbatim>\<open>text[i:j]\<close> for non-negative bounds\<close>
  "slice text i j = take (j - i) (drop i text)"

fun ansi_loop ::
  "string \<Rightarrow> (nat \<times> nat \<times> string option) list \<Rightarrow> nat \<Rightarrow> nat \<Rightarrow> nat \<Rightarrow> Token option \<Rightarrow> Token list"
where
  "ansi_loop text [] position start0 end0 previous =
     (if position < length text then [plain_token start0 end0 (drop position text)] else [])"
| "ansi_loop text ((s, e, sgr) # ms) position start0 end0 previous =
     (let between = (if s > position then [plain_token s e (slice text position s)] else []);
          previous1 = (if s > position then Some (plain_token s e (slice text position s))
                       else previous);
          token = code_token s e sgr None;
          emit = (case previous1 of None \<Rightarrow> True | Some p \<Rightarrow> code p \<noteq> sgr)
      in between @ (if emit then [token] else [])
           @ ansi_loop text ms e s e (if emit then Some token else previous1))"

definition tokenize_ansi :: "string \<Rightarrow> Token list" where
  "tokenize_ansi text =
     (let text1 = (if \<not> endswith text reset then text @ ESC # ''[0m'' else text)
      in ansi_loop text1 (finditer_ansi 0 text1) 0 0 0 None)"

definition color_attribute :: "bool \<Rightarrow> TokenAttribute" where
  "color_attribute background = (if background then BACKGROUND_COLOR else COLOR)"

definition tokenize_tag :: "foreground \<Rightarrow> nat \<Rightarrow> nat \<Rightarrow> string \<Rightarrow> error + Token" where
  \<comment> \<open>the body of \<^verbatim>\<open>for tag in tag_text.split()\<close>\<close>
  "tokenize_tag fg s e tag =
     (case list_index NAMES tag of
        Some i \<Rightarrow>
          Inr (code_token s e (Some (str_nat i)) (Some (if tag = ''/'' then CLEAR else STYLE)))
      | None \<Rightarrow>
          (case map_of UNSET_MAP tag of
             Some c \<Rightarrow> Inr (code_token s e (Some c) (Some CLEAR))
           | None \<Rightarrow>
               (case handle_named_color fg tag of
                  Inl err \<Rightarrow> Inl err
                | Inr (Some (c, background)) \<Rightarrow>
                    Inr (code_token s e (Some c) (Some (color_attribute background)))
                | Inr None \<Rightarrow>
                    (case handle_color fg tag of
                       Inl err \<Rightarrow> Inl err
                     | Inr (Some (c, background)) \<Rightarrow>
                         Inr (code_token s e (Some c) (Some (color_attribute background)))
                     | Inr None \<Rightarrow> Inl (SyntaxError tag)))))"

fun tokenize_tags :: "foreground \<Rightarrow> nat \<Rightarrow> nat \<Rightarrow> string list \<Rightarrow> Token list \<times> error option" where
  "tokenize_tags fg s e [] = ([], None)"
| "tokenize_tags fg s e (tag # tags) =
     (case tokenize_tag fg s e tag of
        Inl err \<Rightarrow> ([], Some err)
      | Inr t \<Rightarrow> (case tokenize_tags fg s e tags of (ts, r) \<Rightarrow> (t # ts, r)))"

definition yield_before :: "Token list \<Rightarrow> Token list \<times> error option \<Rightarrow> Token list \<times> error option" where
  \<comment> \<open>tokens yielded before the rest of the generator runs\<close>
  "yield_before ts r = (ts @ fst r, snd r)"

text \<open>
  The loop of \<^verbatim>\<open>tokenize_markup\<close>. \<^verbatim>\<open>start\<close> and \<^verbatim>\<open>end\<close> are bound by the first
  iteration only: the last argument is \<open>None\<close> until then. \<^verbatim>\<open>escapes\<close> is never absent,
  since its group takes part in every match.
\<close>

fun markup_loop ::
  "foreground \<Rightarrow> string \<Rightarrow> (nat \<times> nat \<times> string \<times> string) list \<Rightarrow> nat \<Rightarrow> (nat \<times> nat) option
     \<Rightarrow> Token list \<times> error option"
where
  "markup_loop fg text [] position bound =
     (if position < length text then
        (case bound of
           None \<Rightarrow> ([], Some UnboundLocalError)
         | Some (start0, end0) \<Rightarrow> ([plain_token start0 end0 (drop position text)], None))
      else ([], None))"
| "markup_loop fg text ((s, e, escapes, tag_text) # ms) position bound =
     (let between = (if s > position then [plain_token s e (slice text position s)] else []);
          backslashes = length escapes div 2;
          escaped = length escapes mod 2;
          literal = (if backslashes > 0 then [plain_token s e (replicate backslashes BSL)] else []);
          s1 = (if backslashes > 0 then s + backslashes * 2 else s)
      in if escaped > 0 then
           yield_before (between @ literal @ [plain_token s1 e (drop (length escapes) tag_text)])
             (markup_loop fg text ms e (Some (s1, e)))
         else
           (case tokenize_tags fg s1 e (split_ws tag_text) of
              (ts, Some err) \<Rightarrow> (between @ literal @ ts, Some err)
            | (ts, None) \<Rightarrow>
                yield_before (between @ literal @ ts) (markup_loop fg text ms e (Some (s1, e)))))"

definition tokenize_markup :: "foreground \<Rightarrow> string \<Rightarrow> Token list \<times> error option" where
  "tokenize_markup fg text = markup_loop fg text (finditer_tags 0 text) 0 None"

subsection \<open>Converters\<close>

fun to_sequences :: "Token list \<Rightarrow> error + string" where
  \<comment> \<open>\<^verbatim>\<open>for token in ...: ansi += token.to_sequence()\<close>\<close>
  "to_sequences [] = Inr []"
| "to_sequences (t # ts) =
     (case to_sequence t of
        Inl err \<Rightarrow> Inl err
      | Inr s \<Rightarrow> (case to_sequences ts of Inl err \<Rightarrow> Inl err | Inr r \<Rightarrow> Inr (s @ r)))"

definition terminate :: "string \<Rightarrow> string" where
  \<comment> \<open>\<^verbatim>\<open>if not ansi.endswith(reset()): ansi += reset()\<close>\<close>
  "terminate ansi = (if \<not> endswith ansi reset then ansi @ reset else ansi)"

definition markup_to_ansi :: "foreground \<Rightarrow> string \<Rightarrow> error + string" where
  "markup_to_ansi fg markup =
     (case tokenize_markup fg markup of
        (ts, r) \<Rightarrow>
          (case to_sequences ts of
             Inl err \<Rightarrow> Inl err
           | Inr ansi \<Rightarrow> (case r of Some err \<Rightarrow> Inl err | None \<Rightarrow> Inr (terminate ansi))))"

fun markup_fold ::
  "foreground \<Rightarrow> Token list \<Rightarrow> string \<Rightarrow> bool \<Rightarrow> string list \<Rightarrow> error + string"
where
  \<comment> \<open>the loop of \<^verbatim>\<open>ansi_to_markup\<close> over the state \<^verbatim>\<open>markup, in_attr, current_bracket\<close>, and
      the final flush\<close>
  "markup_fold fg [] markup in_attr current_bracket =
     Inr (markup @ ''['' @ join '' '' current_bracket @ '']'')"
| "markup_fold fg (t # ts) markup in_attr current_bracket =
     (if code t \<noteq> None then
        (case to_name fg t of
           Inl err \<Rightarrow> Inl err
         | Inr name \<Rightarrow> markup_fold fg ts markup True (current_bracket @ [name]))
      else
        (let markup1 = (if in_attr then markup @ ''['' @ join '' '' current_bracket @ '']''
                        else markup);
             bracket1 = (if in_attr then [] else current_bracket)
         in case to_name fg t of
              Inl err \<Rightarrow> Inl err
            | Inr name \<Rightarrow> markup_fold fg ts (markup1 @ name) in_attr bracket1))"

definition ansi_to_markup :: "foreground \<Rightarrow> string \<Rightarrow> error + string" where
  "ansi_to_markup fg ansi = markup_fold fg (tokenize_ansi ansi) [] False []"

text \<open>
  The table \<^verbatim>\<open>foreground.names\<close> as the module's docstring lists it (black 0 to white 7),
  for concrete runs; no run below reaches \<^verbatim>\<open>translate_hex\<close>.
\<close>

definition docstring_names :: "(string \<times> nat) list" where
  "docstring_names = [(''black'', 0), (''red'', 1), (''green'', 2), (''yellow'', 3),
                      (''blue'', 4), (''magenta'', 5), (''cyan'', 6), (''white'', 7)]"

definition docstring_foreground :: foreground where
  \<comment> \<open>Modelled from the spec: \<^verbatim>\<open>ansi_interface.foreground\<close> is not in the source. Its
      names are those of the docstring of \<^verbatim>\<open>parser.py\<close>; the spec gives no rule for
      \<^verbatim>\<open>translate_hex\<close> beyond its type, so this instance rejects every input.\<close>
  "docstring_foreground = \<lparr>names = docstring_names, translate_hex = (\<lambda>h. Inl ValueError)\<rparr>"

subsection \<open>Predicates used in the statements\<close>

fun no_repeat :: "Token option \<Rightarrow> Token list \<Rightarrow> bool" where
  \<comment> \<open>no code token repeats the code of the token yielded just before it; the first
      argument is the token yielded before the list, if any\<close>
  "no_repeat previous [] = True"
| "no_repeat previous (t # ts) =
     ((code t = None \<or> (case previous of None \<Rightarrow> True | Some p \<Rightarrow> code p \<noteq> code t))
      \<and> no_repeat (Some t) ts)"

fun trailing_codes :: "Token list \<Rightarrow> Token list" where
  \<comment> \<open>the longest suffix of a token stream that holds code tokens only\<close>
  "trailing_codes [] = []"
| "trailing_codes (t # ts) =
     (if code t \<noteq> None \<and> list_all (\<lambda>u. code u \<noteq> None) ts then t # ts
      else trailing_codes ts)"

section \<open>Properties\<close>

subsection \<open>The color resolver\<close>

text \<open>
  C6. \<^verbatim>\<open>_handle_color\<close> resolves the tag \<^verbatim>\<open>141\<close> to the payload \<^verbatim>\<open>38;5;141\<close>
  (foreground), \<^verbatim>\<open>@141\<close> to \<^verbatim>\<open>48;5;141\<close> (background) and \<^verbatim>\<open>60;100;200\<close> to
  \<^verbatim>\<open>38;2;60;100;200\<close> (foreground). On every tag its result is fixed. A tag of color
  characters (digits, \<^verbatim>\<open>#;@abcdef\<close>) that is not hex-prefixed once its \<^verbatim>\<open>@\<close> is removed
  resolves to the layer prefix, the selector and the tag without its \<^verbatim>\<open>@\<close>, where the
  selector is \<^verbatim>\<open>5;\<close> when the tag has fewer than two semicolons and \<^verbatim>\<open>2;\<close> otherwise. A
  hex-prefixed tag resolves, where \<^verbatim>\<open>translate_hex\<close> returns, to the layer prefix, the
  selector \<^verbatim>\<open>2;\<close> and the three components in decimal. The result is marked background
  exactly when the tag starts with \<^verbatim>\<open>@\<close>. A tag with any other character is not a color.
\<close>

theorem handle_color_payload:
  "handle_color fg ''141'' = Inr (Some (''38;5;141'', False))
   \<and> handle_color fg ''@141'' = Inr (Some (''48;5;141'', True))
   \<and> handle_color fg ''60;100;200'' = Inr (Some (''38;2;60;100;200'', False))
   \<and> (\<forall>tag payload background.
        handle_color fg tag = Inr (Some (payload, background)) \<longrightarrow>
          (background \<longleftrightarrow> startswith tag ''@'')
          \<and> (\<exists>fields. payload =
                (if background then ''48;'' else ''38;'')
                @ (if count_char (if background then drop 1 tag else tag) CHR '';'' < 2
                      \<and> \<not> startswith (if background then drop 1 tag else tag) ''#''
                   then ''5;'' else ''2;'')
                @ fields))
   \<and> (\<forall>tag.
        list_all (\<lambda>c. isdigit c \<or> c \<in> set ''#;@abcdef'') tag
        \<and> \<not> startswith (if startswith tag ''@'' then drop 1 tag else tag) ''#'' \<longrightarrow>
          handle_color fg tag =
            Inr (Some ((if startswith tag ''@'' then ''48;'' else ''38;'')
                       @ (if count_char (if startswith tag ''@'' then drop 1 tag else tag)
                               CHR '';'' < 2
                          then ''5;'' else ''2;'')
                       @ (if startswith tag ''@'' then drop 1 tag else tag),
                       startswith tag ''@'')))
   \<and> (\<forall>tag r g b.
        list_all (\<lambda>c. isdigit c \<or> c \<in> set ''#;@abcdef'') tag
        \<and> startswith (if startswith tag ''@'' then drop 1 tag else tag) ''#''
        \<and> translate_hex fg (if startswith tag ''@'' then drop 1 tag else tag) = Inr (r, g, b) \<longrightarrow>
          handle_color fg tag =
            Inr (Some ((if startswith tag ''@'' then ''48;'' else ''38;'') @ ''2;''
                       @ join '';'' [str_nat r, str_nat g, str_nat b],
                       startswith tag ''@'')))
   \<and> (\<forall>tag.
        \<not> list_all (\<lambda>c. isdigit c \<or> c \<in> set ''#;@abcdef'') tag \<longrightarrow>
          handle_color fg tag = Inr None)"
proof -
  have a: "handle_color fg ''141'' = Inr (Some (''38;5;141'', False))"
    by code_simp
  have b: "handle_color fg ''@141'' = Inr (Some (''48;5;141'', True))"
    by code_simp
  have c: "handle_color fg ''60;100;200'' = Inr (Some (''38;2;60;100;200'', False))"
    by code_simp
  have d: "(background \<longleftrightarrow> startswith tag ''@'')
          \<and> (\<exists>fields. payload =
                (if background then ''48;'' else ''38;'')
                @ (if count_char (if background then drop 1 tag else tag) CHR '';'' < 2
                      \<and> \<not> startswith (if background then drop 1 tag else tag) ''#''
                   then ''5;'' else ''2;'')
                @ fields)"
    if "handle_color fg tag = Inr (Some (payload, background))" for tag payload background
    using that
    by (auto simp: handle_color_def Let_def split: if_splits sum.splits prod.splits)
  have e: "handle_color fg tag =
            Inr (Some ((if startswith tag ''@'' then ''48;'' else ''38;'')
                       @ (if count_char (if startswith tag ''@'' then drop 1 tag else tag)
                               CHR '';'' < 2
                          then ''5;'' else ''2;'')
                       @ (if startswith tag ''@'' then drop 1 tag else tag),
                       startswith tag ''@''))"
    if "list_all (\<lambda>c. isdigit c \<or> c \<in> set ''#;@abcdef'') tag"
      "\<not> startswith (if startswith tag ''@'' then drop 1 tag else tag) ''#''" for tag
    using that by (simp add: handle_color_def Let_def)
  have f: "handle_color fg tag =
            Inr (Some ((if startswith tag ''@'' then ''48;'' else ''38;'') @ ''2;''
                       @ join '';'' [str_nat r, str_nat g, str_nat b],
                       startswith tag ''@''))"
    if "list_all (\<lambda>c. isdigit c \<or> c \<in> set ''#;@abcdef'') tag"
      "startswith (if startswith tag ''@'' then drop 1 tag else tag) ''#''"
      "translate_hex fg (if startswith tag ''@'' then drop 1 tag else tag) = Inr (r, g, b)"
    for tag r g b
    using that by (simp add: handle_color_def Let_def)
  have g: "handle_color fg tag = Inr None"
    if "\<not> list_all (\<lambda>c. isdigit c \<or> c \<in> set ''#;@abcdef'') tag" for tag
    using that by (simp add: handle_color_def)
  from d have d': "\<forall>tag payload background.
        handle_color fg tag = Inr (Some (payload, background)) \<longrightarrow>
          (background \<longleftrightarrow> startswith tag ''@'')
          \<and> (\<exists>fields. payload =
                (if background then ''48;'' else ''38;'')
                @ (if count_char (if background then drop 1 tag else tag) CHR '';'' < 2
                      \<and> \<not> startswith (if background then drop 1 tag else tag) ''#''
                   then ''5;'' else ''2;'')
                @ fields)"
    by blast
  from e have e': "\<forall>tag.
        list_all (\<lambda>c. isdigit c \<or> c \<in> set ''#;@abcdef'') tag
        \<and> \<not> startswith (if startswith tag ''@'' then drop 1 tag else tag) ''#'' \<longrightarrow>
          handle_color fg tag =
            Inr (Some ((if startswith tag ''@'' then ''48;'' else ''38;'')
                       @ (if count_char (if startswith tag ''@'' then drop 1 tag else tag)
                               CHR '';'' < 2
                          then ''5;'' else ''2;'')
                       @ (if startswith tag ''@'' then drop 1 tag else tag),
                       startswith tag ''@''))"
    by blast
  from f have f': "\<forall>tag r g b.
        list_all (\<lambda>c. isdigit c \<or> c \<in> set ''#;@abcdef'') tag
        \<and> startswith (if startswith tag ''@'' then drop 1 tag else tag) ''#''
        \<and> translate_hex fg (if startswith tag ''@'' then drop 1 tag else tag) = Inr (r, g, b) \<longrightarrow>
          handle_color fg tag =
            Inr (Some ((if startswith tag ''@'' then ''48;'' else ''38;'') @ ''2;''
                       @ join '';'' [str_nat r, str_nat g, str_nat b],
                       startswith tag ''@''))"
    by blast
  from g have g': "\<forall>tag.
        \<not> list_all (\<lambda>c. isdigit c \<or> c \<in> set ''#;@abcdef'') tag \<longrightarrow>
          handle_color fg tag = Inr None"
    by blast
  from a b c d' e' f' g' show ?thesis by (intro conjI)
qed

theorem handle_color_payload_witness:
  "handle_color docstring_foreground ''1;2'' = Inr (Some (''38;5;1;2'', False))
   \<and> \<not> startswith ''1;2'' ''@''
   \<and> (\<exists>fields. ''38;5;1;2'' = ''38;'' @ ''5;'' @ fields)
   \<and> handle_color docstring_foreground ''@1;2;3'' = Inr (Some (''48;2;1;2;3'', True))
   \<and> handle_color \<lparr>names = [], translate_hex = (\<lambda>h. Inr (255, 0, 0))\<rparr> ''#ff0000''
       = Inr (Some (''38;2;255;0;0'', False))
   \<and> handle_color docstring_foreground ''bold'' = Inr None"
proof -
  note th = handle_color_payload [of docstring_foreground]
  note th4 = th [THEN conjunct2, THEN conjunct2, THEN conjunct2]
  have r: "handle_color docstring_foreground ''1;2'' = Inr (Some (''38;5;1;2'', False))"
    by code_simp
  have c: "count_char ''1;2'' CHR '';'' < 2 \<and> \<not> startswith ''1;2'' ''#''"
    by code_simp
  from th4 [THEN conjunct1, rule_format, OF r] c
  have w1: "\<not> startswith ''1;2'' ''@'' \<and> (\<exists>fields. ''38;5;1;2'' = ''38;'' @ ''5;'' @ fields)"
    by simp
  have h2: "list_all (\<lambda>c. isdigit c \<or> c \<in> set ''#;@abcdef'') ''@1;2;3''
     \<and> \<not> startswith (if startswith ''@1;2;3'' ''@'' then drop 1 ''@1;2;3'' else ''@1;2;3'') ''#''"
    by code_simp
  have v2: "((if startswith ''@1;2;3'' ''@'' then ''48;'' else ''38;'')
        @ (if count_char (if startswith ''@1;2;3'' ''@'' then drop 1 ''@1;2;3'' else ''@1;2;3'')
                CHR '';'' < 2
           then ''5;'' else ''2;'')
        @ (if startswith ''@1;2;3'' ''@'' then drop 1 ''@1;2;3'' else ''@1;2;3''),
        startswith ''@1;2;3'' ''@'') = (''48;2;1;2;3'', True)"
    by code_simp
  from th4 [THEN conjunct2, THEN conjunct1, rule_format, OF h2]
  have w2: "handle_color docstring_foreground ''@1;2;3'' = Inr (Some (''48;2;1;2;3'', True))"
    unfolding v2 .
  have h3: "list_all (\<lambda>c. isdigit c \<or> c \<in> set ''#;@abcdef'') ''#ff0000''
     \<and> startswith (if startswith ''#ff0000'' ''@'' then drop 1 ''#ff0000'' else ''#ff0000'') ''#''
     \<and> translate_hex \<lparr>names = [], translate_hex = (\<lambda>h. Inr (255, 0, 0))\<rparr>
         (if startswith ''#ff0000'' ''@'' then drop 1 ''#ff0000'' else ''#ff0000'')
        = Inr (255, 0, 0)"
    by code_simp
  have v3: "((if startswith ''#ff0000'' ''@'' then ''48;'' else ''38;'') @ ''2;''
        @ join '';'' [str_nat 255, str_nat 0, str_nat 0],
        startswith ''#ff0000'' ''@'') = (''38;2;255;0;0'', False)"
    by code_simp
  from handle_color_payload [of "\<lparr>names = [], translate_hex = (\<lambda>h. Inr (255, 0, 0))\<rparr>",
      THEN conjunct2, THEN conjunct2, THEN conjunct2, THEN conjunct2, THEN conjunct2,
      THEN conjunct1, rule_format, OF h3]
  have w3: "handle_color \<lparr>names = [], translate_hex = (\<lambda>h. Inr (255, 0, 0))\<rparr> ''#ff0000''
       = Inr (Some (''38;2;255;0;0'', False))"
    unfolding v3 .
  have h4: "\<not> list_all (\<lambda>c. isdigit c \<or> c \<in> set ''#;@abcdef'') ''bold''"
    by code_simp
  from th4 [THEN conjunct2, THEN conjunct2, THEN conjunct2, rule_format, OF h4]
  have w4: "handle_color docstring_foreground ''bold'' = Inr None" .
  from r w1 w2 w3 w4 show ?thesis by (intro conjI) auto
qed

subsection \<open>Escaped bracket groups\<close>

text \<open>
  C4, as the claim states it, fails: on two backslashes followed by \<^verbatim>\<open>[bold]hi\<close> the
  tokenizer yields one literal backslash, then the code token of \<^verbatim>\<open>bold\<close>, then the
  plain text \<^verbatim>\<open>hi\<close>. No plain token holds \<^verbatim>\<open>[bold]\<close>, and the bracket is read as a
  tag.
\<close>

theorem two_backslashes_counterexample:
  "tokenize_markup docstring_foreground (BSL # BSL # ''[bold]hi'') =
     ([plain_token 0 8 [BSL], code_token 2 8 (Some ''1'') (Some STYLE), plain_token 2 8 ''hi''],
      None)"
  by code_simp

text \<open>
  C4, amended. On two backslashes followed by \<^verbatim>\<open>[bold]hi\<close>, \<^verbatim>\<open>tokenize_markup\<close>
  yields a plain token of one backslash, the code token \<^verbatim>\<open>1\<close> of the style \<^verbatim>\<open>bold\<close>
  and the plain token \<^verbatim>\<open>hi\<close>: an even run of backslashes collapses to half its length
  and the bracket group that follows is a tag group. On one backslash followed by
  \<^verbatim>\<open>[bold]hi\<close> it finishes without error, the bracket group is not read as a tag (every
  token yielded is plain text), and the last token is the plain text \<^verbatim>\<open>hi\<close>.
\<close>

theorem escaped_bracket_handling:
  "tokenize_markup fg (BSL # BSL # ''[bold]hi'') =
     ([plain_token 0 8 [BSL], code_token 2 8 (Some ''1'') (Some STYLE), plain_token 2 8 ''hi''],
      None)
   \<and> snd (tokenize_markup fg (BSL # ''[bold]hi'')) = None
   \<and> list_all (\<lambda>t. code t = None \<and> plain t \<noteq> None) (fst (tokenize_markup fg (BSL # ''[bold]hi'')))
   \<and> plain (last (fst (tokenize_markup fg (BSL # ''[bold]hi'')))) = Some ''hi''"
proof -
  have two: "tokenize_markup fg (BSL # BSL # ''[bold]hi'') =
     ([plain_token 0 8 [BSL], code_token 2 8 (Some ''1'') (Some STYLE), plain_token 2 8 ''hi''],
      None)"
    by code_simp
  have one: "tokenize_markup fg (BSL # ''[bold]hi'') =
     ([plain_token 0 7 ''old'', plain_token 0 7 ''hi''], None)"
    by code_simp
  show ?thesis
    unfolding one by (simp add: two plain_token_def)
qed

subsection \<open>Adjacent duplicates in the ANSI tokenizer\<close>

lemma no_repeat_append:
  "no_repeat previous (xs @ ys) \<longleftrightarrow>
     no_repeat previous xs \<and> no_repeat (if xs = [] then previous else Some (last xs)) ys"
  by (induction xs arbitrary: previous) auto

lemma ansi_loop_no_repeat:
  "no_repeat previous (ansi_loop text ms position start0 end0 previous)"
proof (induction ms arbitrary: position start0 end0 previous)
  case Nil
  show ?case by (simp add: plain_token_def)
next
  case (Cons m ms)
  obtain s e sgr where m: "m = (s, e, sgr)" by (cases m)
  show ?case
    unfolding m
    by (auto simp: Let_def no_repeat_append plain_token_def code_token_def Cons.IH
             split: option.splits)
qed

lemma no_repeat_nth:
  "no_repeat previous ts \<Longrightarrow> Suc i < length ts \<Longrightarrow> code (ts ! Suc i) \<noteq> None
     \<Longrightarrow> code (ts ! Suc i) \<noteq> code (ts ! i)"
proof (induction ts arbitrary: previous i)
  case Nil
  then show ?case by simp
next
  case (Cons t ts)
  show ?case
  proof (cases i)
    case 0
    with Cons.prems show ?thesis by (cases ts) auto
  next
    case (Suc j)
    with Cons.prems Cons.IH [of "Some t" j] show ?thesis by simp
  qed
qed

text \<open>
  C5, as the claim states it, fails: \<^verbatim>\<open>tokenize_ansi\<close> on \<^verbatim>\<open>ESC[1m ESC[1m hello\<close>
  yields three tokens, two of them code tokens: the reset it appends to the text is
  tokenized as well.
\<close>

theorem duplicate_collapse_counterexample:
  "length (tokenize_ansi (ESC # ''[1m'' @ ESC # ''[1mhello'')) = 3
   \<and> map code (tokenize_ansi (ESC # ''[1m'' @ ESC # ''[1mhello'')) = [Some ''1'', None, Some ''0'']"
  by code_simp

text \<open>
  C5, amended. \<^verbatim>\<open>tokenize_ansi\<close> on \<^verbatim>\<open>ESC[1m ESC[1m hello\<close> yields exactly one code
  token \<^verbatim>\<open>1\<close>, then the plain token \<^verbatim>\<open>hello\<close>, then the code token \<^verbatim>\<open>0\<close> of the reset
  that the tokenizer appends; the second \<^verbatim>\<open>ESC[1m\<close> yields nothing. On every input, a code
  token is yielded only if its code differs from the code of the token yielded just
  before it.
\<close>

theorem tokenize_ansi_collapses_duplicates:
  "tokenize_ansi (ESC # ''[1m'' @ ESC # ''[1mhello'') =
     [code_token 0 4 (Some ''1'') None, plain_token 13 17 ''hello'',
      code_token 13 17 (Some ''0'') None]
   \<and> (\<forall>text i. Suc i < length (tokenize_ansi text) \<longrightarrow>
         code (tokenize_ansi text ! Suc i) \<noteq> None \<longrightarrow>
         code (tokenize_ansi text ! Suc i) \<noteq> code (tokenize_ansi text ! i))"
proof -
  have ev: "tokenize_ansi (ESC # ''[1m'' @ ESC # ''[1mhello'') =
     [code_token 0 4 (Some ''1'') None, plain_token 13 17 ''hello'',
      code_token 13 17 (Some ''0'') None]"
    by code_simp
  have nr: "no_repeat None (tokenize_ansi s)" for s
    by (simp add: tokenize_ansi_def Let_def ansi_loop_no_repeat)
  from no_repeat_nth [OF nr] ev show ?thesis by blast
qed

theorem tokenize_ansi_collapses_duplicates_witness:
  "Suc 1 < length (tokenize_ansi (ESC # ''[1m'' @ ESC # ''[1mhello''))
   \<and> code (tokenize_ansi (ESC # ''[1m'' @ ESC # ''[1mhello'') ! Suc 1) \<noteq> None
   \<and> code (tokenize_ansi (ESC # ''[1m'' @ ESC # ''[1mhello'') ! Suc 1)
       \<noteq> code (tokenize_ansi (ESC # ''[1m'' @ ESC # ''[1mhello'') ! 1)"
proof -
  have ev: "tokenize_ansi (ESC # ''[1m'' @ ESC # ''[1mhello'') =
     [code_token 0 4 (Some ''1'') None, plain_token 13 17 ''hello'',
      code_token 13 17 (Some ''0'') None]"
    by code_simp
  have a: "Suc 1 < length (tokenize_ansi (ESC # ''[1m'' @ ESC # ''[1mhello''))"
    unfolding ev by simp
  have b: "code (tokenize_ansi (ESC # ''[1m'' @ ESC # ''[1mhello'') ! Suc 1) \<noteq> None"
    unfolding ev by (simp add: code_token_def)
  from tokenize_ansi_collapses_duplicates [THEN conjunct2, rule_format, OF a b] a b
  show ?thesis by simp
qed

subsection \<open>The empty input\<close>

text \<open>
  C10. On the empty string \<^verbatim>\<open>markup_to_ansi\<close> returns exactly the reset sequence
  \<^verbatim>\<open>ESC[0m\<close>, and \<^verbatim>\<open>ansi_to_markup\<close> returns exactly \<^verbatim>\<open>[/]\<close>: the reset that
  \<^verbatim>\<open>tokenize_ansi\<close> appends becomes a single clear-all group.
\<close>

theorem empty_input_conversions:
  "markup_to_ansi fg [] = Inr (ESC # ''[0m'') \<and> ansi_to_markup fg [] = Inr ''[/]''"
proof -
  have "markup_to_ansi fg [] = Inr (ESC # ''[0m'')"
    by code_simp
  moreover have "ansi_to_markup fg [] = Inr ''[/]''"
    by code_simp
  ultimately show ?thesis by simp
qed

subsection \<open>Termination of the output of \<^verbatim>\<open>markup_to_ansi\<close>\<close>

lemma endswith_append_self: "endswith (a @ p) p"
  by (simp add: endswith_def)

lemma endswith_terminate: "endswith (terminate a) reset"
  by (simp add: terminate_def endswith_append_self)

lemma terminate_idem: "terminate (terminate a) = terminate a"
  using endswith_terminate [of a] by (simp add: terminate_def)

text \<open>
  C8. For every markup string that \<^verbatim>\<open>markup_to_ansi\<close> accepts without error, the result
  ends with the reset sequence \<^verbatim>\<open>ESC[0m\<close>, and appending the reset where the string
  does not end with it already leaves the result unchanged.
\<close>

theorem markup_to_ansi_terminated:
  assumes "markup_to_ansi fg m = Inr a"
  shows "endswith a (ESC # ''[0m'') \<and> terminate a = a"
proof -
  from assms obtain b where "a = terminate b"
    by (auto simp: markup_to_ansi_def split: prod.splits sum.splits option.splits)
  then show ?thesis
    using endswith_terminate [of b] terminate_idem [of b] by (simp add: reset_def)
qed

theorem markup_to_ansi_terminated_witness:
  "markup_to_ansi docstring_foreground ''[bold]hi'' = Inr (ESC # ''[1mhi'' @ ESC # ''[0m'')
   \<and> endswith (ESC # ''[1mhi'' @ ESC # ''[0m'') (ESC # ''[0m'')
   \<and> terminate (ESC # ''[1mhi'' @ ESC # ''[0m'') = ESC # ''[1mhi'' @ ESC # ''[0m''"
proof -
  have r: "markup_to_ansi docstring_foreground ''[bold]hi'' = Inr (ESC # ''[1mhi'' @ ESC # ''[0m'')"
    by code_simp
  from markup_to_ansi_terminated [OF r] r show ?thesis by simp
qed

subsection \<open>The trailing group of \<^verbatim>\<open>ansi_to_markup\<close>\<close>

lemma ansi_loop_one_field:
  "t \<in> set (ansi_loop s ms position start0 end0 previous) \<Longrightarrow> plain t = None \<or> code t = None"
proof (induction ms arbitrary: position start0 end0 previous)
  case Nil
  then show ?case by (auto simp: plain_token_def split: if_splits)
next
  case (Cons m ms)
  obtain s0 e0 sgr where m: "m = (s0, e0, sgr)" by (cases m)
  from Cons.prems show ?case
    unfolding m
    by (auto simp: Let_def plain_token_def code_token_def split: if_splits dest: Cons.IH)
qed

lemma tokenize_ansi_one_field:
  "t \<in> set (tokenize_ansi s) \<Longrightarrow> plain t = None \<or> code t = None"
  by (auto simp: tokenize_ansi_def Let_def dest: ansi_loop_one_field)

lemma to_name_reset: "plain t = None \<Longrightarrow> code t = Some ''0'' \<Longrightarrow> to_name fg t = Inr ''/''"
  by (simp add: to_name_def) code_simp

lemma trailing_codes_all: "list_all (\<lambda>u. code u \<noteq> None) ts \<Longrightarrow> trailing_codes ts = ts"
  by (cases ts) auto

lemma trailing_codes_snoc:
  "code t \<noteq> None \<Longrightarrow>
     trailing_codes (us @ [t]) = trailing_codes us @ [t] \<or> trailing_codes (us @ [t]) = [t]"
  by (induction us) auto

lemma markup_fold_flush:
  "markup_fold fg ts markup in_attr bracket = Inr out \<Longrightarrow> (\<not> in_attr \<longrightarrow> bracket = []) \<Longrightarrow>
     \<exists>before ns. out = before @ ''['' @ join '' '' ns @ '']''
       \<and> map Inr ns = (if list_all (\<lambda>u. code u \<noteq> None) ts then map Inr bracket else [])
                        @ map (to_name fg) (trailing_codes ts)"
proof (induction ts arbitrary: markup in_attr bracket)
  case Nil
  then show ?case by auto
next
  case (Cons t ts)
  show ?case
  proof (cases "code t \<noteq> None")
    case True
    with Cons.prems obtain name where n: "to_name fg t = Inr name"
      and r: "markup_fold fg ts markup True (bracket @ [name]) = Inr out"
      by (auto split: sum.splits)
    from Cons.IH [OF r] obtain before ns where
      o: "out = before @ ''['' @ join '' '' ns @ '']''"
      and e: "map Inr ns = (if list_all (\<lambda>u. code u \<noteq> None) ts then map Inr (bracket @ [name]) else [])
                        @ map (to_name fg) (trailing_codes ts)"
      by auto
    from e True n have "map Inr ns = (if list_all (\<lambda>u. code u \<noteq> None) (t # ts) then map Inr bracket else [])
                        @ map (to_name fg) (trailing_codes (t # ts))"
      by (auto simp: trailing_codes_all)
    with o show ?thesis by blast
  next
    case False
    with Cons.prems obtain m1 where
      r: "markup_fold fg ts m1 in_attr [] = Inr out"
      by (auto simp: Let_def split: sum.splits if_splits)
    from Cons.IH [OF r] obtain before ns where
      o: "out = before @ ''['' @ join '' '' ns @ '']''"
      and e: "map Inr ns = map (to_name fg) (trailing_codes ts)"
      by auto
    from e False have "map Inr ns = (if list_all (\<lambda>u. code u \<noteq> None) (t # ts) then map Inr bracket else [])
                        @ map (to_name fg) (trailing_codes (t # ts))"
      by auto
    with o show ?thesis by blast
  qed
qed

lemma until_m_split:
  "until_m cs = Some (body, rest) \<Longrightarrow> cs = body @ ''m'' @ rest"
  by (induction cs arbitrary: body) (auto split: if_splits option.splits)

lemma until_st_split:
  "until_st cs = Some (body, rest) \<Longrightarrow> cs = body @ [ESC, BSL] @ rest"
  by (induction cs arbitrary: body rule: until_st.induct) (auto split: if_splits option.splits)

lemma match_ansi_split:
  assumes "match_ansi xs = Some (sgr, rest)"
  shows "\<exists>m. xs = m @ [if sgr = None then BSL else CHR ''m''] @ rest"
proof -
  from assms obtain e b cs where xs: "xs = e # b # cs"
    by (auto simp: match_ansi_def split: list.splits)
  show ?thesis
  proof (cases sgr)
    case None
    with assms xs obtain osc where "until_st cs = Some (osc, rest)"
      by (auto simp: match_ansi_def split: if_splits option.splits)
    from until_st_split [OF this] xs None show ?thesis
      by (intro exI [of _ "e # b # osc @ [ESC]"]) simp
  next
    case (Some g)
    with assms xs have "until_m cs = Some (g, rest)"
      by (auto simp: match_ansi_def split: if_splits option.splits)
    from until_m_split [OF this] xs Some show ?thesis
      by (intro exI [of _ "e # b # g"]) simp
  qed
qed

lemma endswith_reset_iff: "endswith xs reset \<longleftrightarrow> (\<exists>ys. xs = ys @ reset)"
  unfolding endswith_def
  by (metis append_eq_conv_conj append_take_drop_id diff_add_inverse2 le_add2 length_append length_drop)

lemma match_ansi_reset: "match_ansi reset = Some (Some ''0'', [])"
  by code_simp

lemma tl_endswith_reset:
  assumes "endswith xs reset" "match_ansi xs = None"
  shows "endswith (tl xs) reset"
proof -
  from assms(1) obtain ys where xs: "xs = ys @ reset" by (auto simp: endswith_reset_iff)
  with assms(2) match_ansi_reset have "ys \<noteq> []" by auto
  with xs show ?thesis by (cases ys) (auto simp: endswith_reset_iff)
qed

lemma reset_prefixes:
  assumes "[ESC, CHR ''['', CHR ''0'', CHR ''m''] = us @ rest"
  shows "us = [] \<or> last us = ESC \<or> last us = CHR ''['' \<or> last us = CHR ''0''
         \<or> (last us = CHR ''m'' \<and> rest = [])"
  using assms by (auto simp: Cons_eq_append_conv)

lemma rest_endswith_reset:
  assumes e: "endswith xs reset" and m: "match_ansi xs = Some (sgr, rest)"
  shows "(rest = [] \<and> sgr \<noteq> None) \<or> endswith rest reset"
proof -
  from e obtain ys where xs: "xs = ys @ reset" by (auto simp: endswith_reset_iff)
  from match_ansi_split [OF m] obtain m0 c where
    sp: "xs = m0 @ [c] @ rest" and c: "c = (if sgr = None then BSL else CHR ''m'')" by blast
  have cne: "c \<noteq> ESC" "c \<noteq> CHR ''[''" "c \<noteq> CHR ''0''"
    by (auto simp: c ESC_def BSL_def)
  from xs sp have "ys @ reset = (m0 @ [c]) @ rest" by simp
  then have "\<exists>us. ys = (m0 @ [c]) @ us \<and> us @ reset = rest
                \<or> ys @ us = m0 @ [c] \<and> reset = us @ rest"
    by (rule append_eq_append_conv2 [THEN iffD1])
  then consider
    (inside) us where "ys = (m0 @ [c]) @ us" "us @ reset = rest"
    | (across) us where "ys @ us = m0 @ [c]" "reset = us @ rest"
    by blast
  then show ?thesis
  proof cases
    case inside
    then show ?thesis by (auto simp: endswith_reset_iff)
  next
    case across
    show ?thesis
    proof (cases "us = []")
      case True
      with across show ?thesis by (auto simp: endswith_reset_iff)
    next
      case False
      with across(1) have "last us = c" by (metis last_appendR last_snoc)
      with reset_prefixes [of us rest] across(2) False cne
      have "c = CHR ''m''" "rest = []" by (auto simp: reset_def)
      with c show ?thesis by (auto simp: BSL_def split: if_splits)
    qed
  qed
qed

lemma finditer_ansi_last:
  "endswith xs reset \<Longrightarrow>
     \<exists>ms s g. finditer_ansi pos xs = ms @ [(s, pos + length xs, Some g)]"
proof (induction pos xs rule: finditer_ansi.induct)
  case (1 pos xs)
  from "1.prems" have ne: "xs \<noteq> []" by (auto simp: endswith_def reset_def)
  show ?case
  proof (cases "match_ansi xs")
    case None
    from "1.IH"(1) [OF ne None tl_endswith_reset [OF "1.prems" None]]
    obtain ms s g where "finditer_ansi (pos + 1) (tl xs) = ms @ [(s, pos + 1 + length (tl xs), Some g)]"
      by blast
    moreover from ne have "pos + 1 + length (tl xs) = pos + length xs" by (cases xs) auto
    ultimately show ?thesis using ne None by (simp add: finditer_ansi.simps [of pos xs])
  next
    case (Some m)
    obtain sgr rest where m: "m = (sgr, rest)" by (cases m)
    from match_ansi_shorter Some m have sh: "length rest < length xs" by simp
    from rest_endswith_reset [OF "1.prems" Some [unfolded m]]
    show ?thesis
    proof
      assume "rest = [] \<and> sgr \<noteq> None"
      then obtain g where "rest = []" "sgr = Some g" by auto
      with ne Some m show ?thesis
        by (simp add: finditer_ansi.simps [of pos xs] finditer_ansi.simps [of _ "[]"])
    next
      assume er: "endswith rest reset"
      from "1.IH"(2) [OF ne Some [unfolded m] refl er]
      obtain ms s g where
        "finditer_ansi (pos + (length xs - length rest)) rest
           = ms @ [(s, pos + (length xs - length rest) + length rest, Some g)]"
        by blast
      with sh ne Some m show ?thesis
        by (simp add: finditer_ansi.simps [of pos xs])
    qed
  qed
qed

lemma ansi_loop_step:
  "\<exists>ys previous1.
      ansi_loop s ((s1, e1, sgr) # ms) position start0 end0 previous
        = ys @ ansi_loop s ms e1 s1 e1 previous1
      \<and> ((ys = [] \<and> previous1 = previous) \<or> (ys \<noteq> [] \<and> previous1 = Some (last ys)))
      \<and> (sgr \<noteq> None \<longrightarrow>
            (ys \<noteq> [] \<and> code (last ys) = sgr)
            \<or> (ys = [] \<and> (\<exists>p. previous = Some p \<and> code p = sgr)))"
proof -
  define between where
    "between = (if s1 > position then [plain_token s1 e1 (slice s position s1)] else [])"
  define previous0 where
    "previous0 = (if s1 > position then Some (plain_token s1 e1 (slice s position s1)) else previous)"
  define emit where
    "emit = (case previous0 of None \<Rightarrow> True | Some p \<Rightarrow> code p \<noteq> sgr)"
  define ys where "ys = between @ (if emit then [code_token s1 e1 sgr None] else [])"
  define previous1 where
    "previous1 = (if emit then Some (code_token s1 e1 sgr None) else previous0)"
  have eq: "ansi_loop s ((s1, e1, sgr) # ms) position start0 end0 previous
        = ys @ ansi_loop s ms e1 s1 e1 previous1"
    by (simp add: Let_def between_def previous0_def emit_def ys_def previous1_def)
  have inv: "(ys = [] \<and> previous1 = previous) \<or> (ys \<noteq> [] \<and> previous1 = Some (last ys))"
    by (auto simp: between_def previous0_def ys_def previous1_def)
  have lastc: "(ys \<noteq> [] \<and> code (last ys) = sgr)
            \<or> (ys = [] \<and> (\<exists>p. previous = Some p \<and> code p = sgr))" if "sgr \<noteq> None"
  proof (cases emit)
    case True
    then show ?thesis by (simp add: ys_def code_token_def)
  next
    case False
    then obtain p where p: "previous0 = Some p" "code p = sgr"
      by (auto simp: emit_def split: option.splits)
    with that have "\<not> s1 > position"
      by (auto simp: previous0_def plain_token_def split: if_splits)
    with p False show ?thesis
      by (simp add: ys_def between_def previous0_def)
  qed
  from eq inv lastc show ?thesis by blast
qed

lemma ansi_loop_last:
  assumes "(acc = [] \<and> previous = None) \<or> (acc \<noteq> [] \<and> previous = Some (last acc))"
  shows "acc @ ansi_loop s (ms @ [(s1, length s, Some g)]) position start0 end0 previous \<noteq> []
         \<and> code (last (acc @ ansi_loop s (ms @ [(s1, length s, Some g)]) position start0 end0 previous))
             \<noteq> None"
  using assms
proof (induction ms arbitrary: acc previous position start0 end0)
  case Nil
  from ansi_loop_step [of s s1 "length s" "Some g" "[]" position start0 end0 previous]
  obtain ys previous1 where
    eq: "ansi_loop s [(s1, length s, Some g)] position start0 end0 previous
           = ys @ ansi_loop s [] (length s) s1 (length s) previous1"
    and c: "(ys \<noteq> [] \<and> code (last ys) = Some g)
            \<or> (ys = [] \<and> (\<exists>p. previous = Some p \<and> code p = Some g))"
    by auto
  from eq have out: "ansi_loop s [(s1, length s, Some g)] position start0 end0 previous = ys"
    by simp
  from c Nil.prems show ?case
    unfolding append_Nil out by auto
next
  case (Cons m ms)
  obtain s2 e2 sgr where m: "m = (s2, e2, sgr)" by (cases m)
  from ansi_loop_step [of s s2 e2 sgr "ms @ [(s1, length s, Some g)]" position start0 end0 previous]
  obtain ys previous1 where
    eq: "ansi_loop s ((s2, e2, sgr) # ms @ [(s1, length s, Some g)]) position start0 end0 previous
           = ys @ ansi_loop s (ms @ [(s1, length s, Some g)]) e2 s2 e2 previous1"
    and inv: "(ys = [] \<and> previous1 = previous) \<or> (ys \<noteq> [] \<and> previous1 = Some (last ys))"
    by auto
  from inv Cons.prems
  have "(acc @ ys = [] \<and> previous1 = None) \<or> (acc @ ys \<noteq> [] \<and> previous1 = Some (last (acc @ ys)))"
    by auto
  from Cons.IH [OF this, of e2 s2 e2]
  have ih: "(acc @ ys) @ ansi_loop s (ms @ [(s1, length s, Some g)]) e2 s2 e2 previous1 \<noteq> []
     \<and> code (last ((acc @ ys) @ ansi_loop s (ms @ [(s1, length s, Some g)]) e2 s2 e2 previous1))
         \<noteq> None" .
  have "acc @ ansi_loop s ((m # ms) @ [(s1, length s, Some g)]) position start0 end0 previous
        = (acc @ ys) @ ansi_loop s (ms @ [(s1, length s, Some g)]) e2 s2 e2 previous1"
    by (simp only: m append_Cons eq append_assoc)
  with ih show ?case by (simp only: simp_thms)
qed

lemma tokenize_ansi_ends_on_code:
  "tokenize_ansi s \<noteq> [] \<and> code (last (tokenize_ansi s)) \<noteq> None"
proof -
  define s1 where "s1 = (if \<not> endswith s reset then s @ ESC # ''[0m'' else s)"
  have "endswith s1 reset"
    by (auto simp: s1_def endswith_def reset_def)
  from finditer_ansi_last [OF this, of 0] obtain ms p g where
    "finditer_ansi 0 s1 = ms @ [(p, length s1, Some g)]" by auto
  with ansi_loop_last [of "[]" None s1 ms p g 0 0 0] show ?thesis
    by (simp add: tokenize_ansi_def Let_def s1_def)
qed

lemma trailing_codes_nonempty:
  "ts \<noteq> [] \<Longrightarrow> code (last ts) \<noteq> None \<Longrightarrow> trailing_codes ts \<noteq> []"
  by (induction ts) (auto split: if_splits)

text \<open>
  C9, as the claim states it, fails: the token stream of \<^verbatim>\<open>hi ESC[0m\<close> ends exactly on
  the reset, and \<^verbatim>\<open>ansi_to_markup\<close> returns \<^verbatim>\<open>hi[/]\<close>, whose trailing group is not the
  empty \<^verbatim>\<open>[]\<close>.
\<close>

theorem trailing_group_counterexample:
  "code (last (tokenize_ansi (''hi'' @ ESC # ''[0m''))) = Some ''0''
   \<and> ansi_to_markup docstring_foreground (''hi'' @ ESC # ''[0m'') = Inr ''hi[/]''
   \<and> \<not> endswith ''hi[/]'' ''[]''"
  by code_simp

text \<open>
  C9, amended. For every ANSI input that \<^verbatim>\<open>ansi_to_markup\<close> accepts without error, the
  result ends with a bracket group: at the end of the input the buffer of attribute names,
  which holds the names of the code tokens that follow the last plain token, is flushed as
  a trailing \<^verbatim>\<open>[...]\<close> group. The group is never the empty \<^verbatim>\<open>[]\<close>, since the token
  stream always ends on a code token; when the stream ends exactly on a reset, the last
  name of the group is the clear-all tag \<^verbatim>\<open>/\<close> (the result ends with \<^verbatim>\<open>/]\<close>).
\<close>

theorem ansi_to_markup_trailing_group:
  assumes "ansi_to_markup fg ansi = Inr markup"
  shows "\<exists>before ns. markup = before @ ''['' @ join '' '' ns @ '']''
           \<and> map Inr ns = map (to_name fg) (trailing_codes (tokenize_ansi ansi))
           \<and> ns \<noteq> []
           \<and> (\<forall>us t. tokenize_ansi ansi = us @ [t] \<and> code t = Some ''0''
                 \<longrightarrow> last ns = ''/'')"
proof -
  from assms have f: "markup_fold fg (tokenize_ansi ansi) [] False [] = Inr markup"
    by (simp add: ansi_to_markup_def)
  from markup_fold_flush [OF f] obtain before ns where
    o: "markup = before @ ''['' @ join '' '' ns @ '']''"
    and n: "map Inr ns = map (to_name fg) (trailing_codes (tokenize_ansi ansi))"
    by auto
  from tokenize_ansi_ends_on_code [of ansi]
  have "trailing_codes (tokenize_ansi ansi) \<noteq> []"
    by (simp add: trailing_codes_nonempty)
  with n have ne: "ns \<noteq> []" by auto
  have "last ns = ''/''"
    if h: "tokenize_ansi ansi = us @ [t]" "code t = Some ''0''" for us t
  proof -
    from h have "t \<in> set (tokenize_ansi ansi)" by simp
    from tokenize_ansi_one_field [OF this] h have p: "plain t = None" by simp
    from h have "trailing_codes (tokenize_ansi ansi) = trailing_codes us @ [t]
                 \<or> trailing_codes (tokenize_ansi ansi) = [t]"
      by (simp add: trailing_codes_snoc)
    with n to_name_reset [OF p h(2), of fg]
    have "map Inr ns = map (to_name fg) (trailing_codes us) @ [Inr ''/'']
          \<or> map Inr ns = [Inr ''/'']"
      by auto
    then show ?thesis
      by (cases ns rule: rev_cases) auto
  qed
  with o n ne show ?thesis by blast
qed

theorem ansi_to_markup_trailing_group_witness:
  "ansi_to_markup docstring_foreground (''hi'' @ ESC # ''[0m'') = Inr ''hi[/]''
   \<and> tokenize_ansi (''hi'' @ ESC # ''[0m'') =
       [plain_token 2 6 ''hi''] @ [code_token 2 6 (Some ''0'') None]
   \<and> (\<exists>before ns. ''hi[/]'' = before @ ''['' @ join '' '' ns @ '']''
         \<and> ns \<noteq> [] \<and> last ns = ''/'')"
proof -
  have r: "ansi_to_markup docstring_foreground (''hi'' @ ESC # ''[0m'') = Inr ''hi[/]''"
    by code_simp
  have ts: "tokenize_ansi (''hi'' @ ESC # ''[0m'') =
       [plain_token 2 6 ''hi''] @ [code_token 2 6 (Some ''0'') None]"
    by code_simp
  have c: "code (code_token 2 6 (Some ''0'') None) = Some ''0''"
    by (simp add: code_token_def)
  from ansi_to_markup_trailing_group [OF r] ts c r show ?thesis by blast
qed

subsection \<open>Token spans\<close>

lemma until_bracket_split:
  "until_bracket cs = Some (body, rest) \<Longrightarrow> cs = body @ '']'' @ rest"
  by (induction cs arbitrary: body) (auto split: if_splits option.splits)

lemma match_tags_split:
  assumes "match_tags xs = Some (escapes, tag_text, rest)"
  shows "xs = escapes @ ''['' @ tag_text @ '']'' @ rest"
proof -
  from assms obtain b c cs body where
    d: "dropWhile (\<lambda>c. c = BSL) xs = b # c # cs" and b: "b = CHR ''[''"
    and u: "until_bracket cs = Some (body, rest)" and t: "tag_text = c # body"
    and e: "escapes = takeWhile (\<lambda>c. c = BSL) xs"
    by (auto simp: match_tags_def Let_def split: list.splits if_splits option.splits)
  have "xs = takeWhile (\<lambda>c. c = BSL) xs @ dropWhile (\<lambda>c. c = BSL) xs" by simp
  with d b t e until_bracket_split [OF u] show ?thesis by simp
qed

lemma finditer_tags_bounds:
  "(s, e, escapes, tag_text) \<in> set (finditer_tags pos xs) \<Longrightarrow>
     pos \<le> s \<and> s < e \<and> e \<le> pos + length xs
     \<and> take (e - s) (drop (s - pos) xs) = escapes @ ''['' @ tag_text @ '']''"
proof (induction pos xs rule: finditer_tags.induct)
  case (1 pos xs)
  show ?case
  proof (cases "xs = []")
    case True
    with "1.prems" show ?thesis by (simp add: finditer_tags.simps)
  next
    case ne: False
    show ?thesis
    proof (cases "match_tags xs")
      case None
      with ne "1.prems" have "(s, e, escapes, tag_text) \<in> set (finditer_tags (pos + 1) (tl xs))"
        by (simp add: finditer_tags.simps [of pos xs])
      from "1.IH"(1) [OF ne None this]
      have ih: "pos + 1 \<le> s" "s < e" "e \<le> pos + 1 + length (tl xs)"
        "take (e - s) (drop (s - (pos + 1)) (tl xs)) = escapes @ ''['' @ tag_text @ '']''"
        by auto
      from ih(1) have "s - pos = Suc (s - (pos + 1))" by simp
      then have "drop (s - pos) xs = drop (s - (pos + 1)) (tl xs)"
        by (simp add: drop_Suc)
      with ih ne show ?thesis by (cases xs) auto
    next
      case (Some m)
      obtain esc tt rest where m: "m = (esc, tt, rest)" by (cases m)
      from match_tags_split Some m have xs: "xs = esc @ ''['' @ tt @ '']'' @ rest" by simp
      have "length xs = length (esc @ ''['' @ tt @ '']'' @ rest)"
        by (subst xs) (rule refl)
      then have len: "length xs - length rest = length esc + length tt + 2" by simp
      from ne Some m "1.prems" consider
        (first) "(s, e, escapes, tag_text) = (pos, pos + (length xs - length rest), esc, tt)"
        | (later) "(s, e, escapes, tag_text) \<in> set (finditer_tags (pos + (length xs - length rest)) rest)"
        by (auto simp: finditer_tags.simps [of pos xs])
      then show ?thesis
      proof cases
        case first
        with xs len show ?thesis by auto
      next
        case later
        from "1.IH"(2) [OF ne Some [unfolded m] refl refl later]
        have ih: "pos + (length xs - length rest) \<le> s" "s < e"
          "e \<le> pos + (length xs - length rest) + length rest"
          "take (e - s) (drop (s - (pos + (length xs - length rest))) rest)
             = escapes @ ''['' @ tag_text @ '']''"
          by auto
        have "drop (s - pos) xs = drop (s - (pos + (length xs - length rest))) rest"
        proof -
          have "drop (s - pos) (((esc @ ''['' @ tt @ '']'') @ rest))
                = drop (s - pos - length (esc @ ''['' @ tt @ '']'')) rest"
            using ih(1) len by (subst drop_append) auto
          with xs len show ?thesis by (simp add: diff_diff_eq)
        qed
        with ih xs len show ?thesis by auto
      qed
    qed
  qed
qed

lemma finditer_tags_sorted:
  "sorted_wrt (\<lambda>m m'. fst (snd m) \<le> fst m') (finditer_tags pos xs)"
proof (induction pos xs rule: finditer_tags.induct)
  case (1 pos xs)
  show ?case
  proof (cases "xs = []")
    case True
    then show ?thesis by (simp add: finditer_tags.simps)
  next
    case ne: False
    show ?thesis
    proof (cases "match_tags xs")
      case None
      with ne "1.IH"(1) show ?thesis by (simp add: finditer_tags.simps [of pos xs])
    next
      case (Some m)
      obtain esc tt rest where m: "m = (esc, tt, rest)" by (cases m)
      have later: "pos + (length xs - length rest) \<le> fst m'"
        if "m' \<in> set (finditer_tags (pos + (length xs - length rest)) rest)" for m'
      proof -
        obtain s e escapes tag_text where "m' = (s, e, escapes, tag_text)" by (cases m')
        with that finditer_tags_bounds show ?thesis by fastforce
      qed
      from "1.IH"(2) [OF ne Some [unfolded m] refl refl] later ne Some m show ?thesis
        by (simp add: finditer_tags.simps [of pos xs])
    qed
  qed
qed

lemma tokenize_tag_span:
  "tokenize_tag fg s e tag = Inr t \<Longrightarrow>
     start t = s \<and> end' t = e \<and> plain t = None \<and> code t \<noteq> None"
  by (auto simp: tokenize_tag_def code_token_def split: option.splits sum.splits prod.splits)

lemma tokenize_tags_span:
  "t \<in> set (fst (tokenize_tags fg s e tags)) \<Longrightarrow>
     start t = s \<and> end' t = e \<and> plain t = None \<and> code t \<noteq> None"
proof (induction tags)
  case Nil
  then show ?case by simp
next
  case (Cons tag tags)
  then show ?case
    by (auto split: sum.splits prod.splits dest: tokenize_tag_span)
qed

lemma markup_loop_spans:
  "t \<in> set (fst (markup_loop fg s ms position bound)) \<Longrightarrow>
     (\<exists>s0 e0 escapes tag_text. (s0, e0, escapes, tag_text) \<in> set ms
         \<and> s0 \<le> start t \<and> start t \<le> s0 + length escapes \<and> end' t = e0)
     \<or> bound = Some (start t, end' t)"
proof (induction ms arbitrary: position bound)
  case Nil
  then show ?case
    by (auto simp: plain_token_def split: if_splits option.splits)
next
  case (Cons m ms)
  obtain s0 e0 escapes tag_text where m: "m = (s0, e0, escapes, tag_text)" by (cases m)
  define s1 where "s1 = (if length escapes div 2 > 0 then s0 + length escapes div 2 * 2 else s0)"
  have s1: "s0 \<le> s1" "s1 \<le> s0 + length escapes"
    by (auto simp: s1_def)
  let ?here = "s0 \<le> start t \<and> start t \<le> s0 + length escapes \<and> end' t = e0"
  from Cons.prems consider
    (head) "t \<in> {plain_token s0 e0 (slice s position s0),
                  plain_token s0 e0 (replicate (length escapes div 2) BSL),
                  plain_token s1 e0 (drop (length escapes) tag_text)}"
    | (tags) "t \<in> set (fst (tokenize_tags fg s1 e0 (split_ws tag_text)))"
    | (rest) "t \<in> set (fst (markup_loop fg s ms e0 (Some (s1, e0))))"
    unfolding m
    by (auto simp: Let_def yield_before_def s1_def split: if_splits prod.splits option.splits)
  then have "?here \<or> (\<exists>s0 e0 escapes tag_text. (s0, e0, escapes, tag_text) \<in> set ms
         \<and> s0 \<le> start t \<and> start t \<le> s0 + length escapes \<and> end' t = e0)"
  proof cases
    case head
    with s1 show ?thesis by (auto simp: plain_token_def)
  next
    case tags
    from tokenize_tags_span [OF tags] s1 show ?thesis by simp
  next
    case rest
    from Cons.IH [OF rest] s1 show ?thesis by auto
  qed
  then show ?case unfolding m by auto
qed

lemma tag_start_not_space: "tag_start_char c \<Longrightarrow> \<not> isspace c"
  by (auto simp: tag_start_char_def isspace_def)

lemma split_ws_nonempty: "\<not> isspace c \<Longrightarrow> split_ws (c # cs) \<noteq> []"
  by (auto split: list.splits)

lemma match_tags_tag_text:
  "match_tags xs = Some (escapes, tag_text, rest) \<Longrightarrow> tag_text \<noteq> [] \<and> tag_start_char (hd tag_text)"
  by (auto simp: match_tags_def Let_def split: list.splits if_splits option.splits)

lemma finditer_tags_tag_text:
  "(s, e, escapes, tag_text) \<in> set (finditer_tags pos xs) \<Longrightarrow>
     tag_text \<noteq> [] \<and> tag_start_char (hd tag_text)"
proof (induction pos xs rule: finditer_tags.induct)
  case (1 pos xs)
  show ?case
  proof (cases "xs = []")
    case True
    with "1.prems" show ?thesis by (simp add: finditer_tags.simps)
  next
    case ne: False
    show ?thesis
    proof (cases "match_tags xs")
      case None
      with ne "1.prems" "1.IH"(1) show ?thesis
        by (simp add: finditer_tags.simps [of pos xs])
    next
      case (Some m)
      obtain esc tt rest where m: "m = (esc, tt, rest)" by (cases m)
      from ne Some m "1.prems" consider
        (first) "tag_text = tt"
        | (later) "(s, e, escapes, tag_text) \<in> set (finditer_tags (pos + (length xs - length rest)) rest)"
        by (auto simp: finditer_tags.simps [of pos xs])
      then show ?thesis
      proof cases
        case first
        with match_tags_tag_text Some m show ?thesis by simp
      next
        case later
        from "1.IH"(2) [OF ne Some [unfolded m] refl refl later] show ?thesis .
      qed
    qed
  qed
qed

lemma tokenize_tags_accepted_nonempty:
  "tokenize_tags fg s e tags = (ts, None) \<Longrightarrow> tags \<noteq> [] \<Longrightarrow> ts \<noteq> []"
  by (cases tags) (auto split: sum.splits prod.splits)

lemma markup_loop_head_token:
  assumes acc: "snd (markup_loop fg s ((s0, e0, escapes, tag_text) # ms) position bound) = None"
    and tt: "tag_text \<noteq> []" "tag_start_char (hd tag_text)"
  shows "\<exists>t \<in> set (fst (markup_loop fg s ((s0, e0, escapes, tag_text) # ms) position bound)).
           start t = s0 \<and> end' t = e0"
proof (cases "length escapes div 2 > 0")
  case True
  then have "plain_token s0 e0 (replicate (length escapes div 2) BSL)
       \<in> set (fst (markup_loop fg s ((s0, e0, escapes, tag_text) # ms) position bound))"
    by (auto simp: Let_def yield_before_def split: prod.splits option.splits)
  then show ?thesis by (rule rev_bexI) (simp add: plain_token_def)
next
  case nb: False
  show ?thesis
  proof (cases "length escapes mod 2 > 0")
    case True
    with nb have "plain_token s0 e0 (drop (length escapes) tag_text)
       \<in> set (fst (markup_loop fg s ((s0, e0, escapes, tag_text) # ms) position bound))"
      by (auto simp: Let_def yield_before_def split: prod.splits option.splits)
    then show ?thesis by (rule rev_bexI) (simp add: plain_token_def)
  next
    case False
    obtain ts r where tg: "tokenize_tags fg s0 e0 (split_ws tag_text) = (ts, r)"
      by (cases "tokenize_tags fg s0 e0 (split_ws tag_text)")
    with acc nb False have r: "r = None"
      by (cases r) (auto simp: Let_def yield_before_def)
    from tt obtain c cs where c: "tag_text = c # cs" and nsp: "\<not> isspace c"
      by (cases tag_text) (auto dest: tag_start_not_space)
    from split_ws_nonempty [OF nsp, of cs] have "split_ws tag_text \<noteq> []"
      unfolding c .
    with tokenize_tags_accepted_nonempty tg r have "ts \<noteq> []" by blast
    then obtain t where t: "t \<in> set ts" by (cases ts) auto
    with tg have "t \<in> set (fst (tokenize_tags fg s0 e0 (split_ws tag_text)))" by simp
    from tokenize_tags_span [OF this] have sp: "start t = s0 \<and> end' t = e0" by simp
    from t tg r nb False have "t \<in> set (fst (markup_loop fg s ((s0, e0, escapes, tag_text) # ms) position bound))"
      by (auto simp: Let_def yield_before_def)
    with sp show ?thesis by blast
  qed
qed

lemma markup_loop_rest:
  assumes "snd (markup_loop fg s ((s0, e0, escapes, tag_text) # ms) position bound) = None"
  shows "\<exists>p b. snd (markup_loop fg s ms p b) = None
           \<and> set (fst (markup_loop fg s ms p b))
               \<subseteq> set (fst (markup_loop fg s ((s0, e0, escapes, tag_text) # ms) position bound))"
proof (cases "length escapes mod 2 > 0")
  case True
  with assms show ?thesis
    by (intro exI [of _ e0]
          exI [of _ "Some (if length escapes div 2 > 0 then s0 + length escapes div 2 * 2 else s0, e0)"])
       (auto simp: Let_def yield_before_def)
next
  case False
  obtain ts r where tg: "tokenize_tags fg
      (if length escapes div 2 > 0 then s0 + length escapes div 2 * 2 else s0) e0
      (split_ws tag_text) = (ts, r)"
    by (cases "tokenize_tags fg
      (if length escapes div 2 > 0 then s0 + length escapes div 2 * 2 else s0) e0
      (split_ws tag_text)")
  with assms False have r: "r = None"
    by (cases r) (auto simp: Let_def yield_before_def)
  with assms False tg show ?thesis
    by (intro exI [of _ e0]
          exI [of _ "Some (if length escapes div 2 > 0 then s0 + length escapes div 2 * 2 else s0, e0)"])
       (auto simp: Let_def yield_before_def)
qed

lemma markup_loop_covers:
  "snd (markup_loop fg s ms position bound) = None \<Longrightarrow>
   (s0, e0, escapes, tag_text) \<in> set ms \<Longrightarrow>
   (\<forall>m \<in> set ms. snd (snd (snd m)) \<noteq> [] \<and> tag_start_char (hd (snd (snd (snd m))))) \<Longrightarrow>
   \<exists>t \<in> set (fst (markup_loop fg s ms position bound)). start t = s0 \<and> end' t = e0"
proof (induction ms arbitrary: position bound)
  case Nil
  then show ?case by simp
next
  case (Cons m ms)
  obtain s1 e1 esc1 tt1 where m: "m = (s1, e1, esc1, tt1)" by (cases m)
  show ?case
  proof (cases "(s0, e0, escapes, tag_text) = m")
    case True
    with Cons.prems m markup_loop_head_token [of fg s s0 e0 escapes tag_text ms position bound]
    show ?thesis by auto
  next
    case False
    with Cons.prems have mem: "(s0, e0, escapes, tag_text) \<in> set ms" by simp
    from markup_loop_rest [of fg s s1 e1 esc1 tt1 ms position bound] Cons.prems(1) m
    obtain p b where r: "snd (markup_loop fg s ms p b) = None"
      and sub: "set (fst (markup_loop fg s ms p b)) \<subseteq> set (fst (markup_loop fg s (m # ms) position bound))"
      by auto
    from Cons.IH [OF r mem] Cons.prems(3) sub show ?thesis by auto
  qed
qed

text \<open>
  C3, as the claim states it, fails: \<^verbatim>\<open>tokenize_markup\<close> accepts \<^verbatim>\<open>hi[bold]\<close> and
  gives both tokens, the plain text \<^verbatim>\<open>hi\<close> and the tag \<^verbatim>\<open>bold\<close>, the span of the
  bracket group, from 2 to 8. Positions 0 and 1 lie in no span, and positions 2 to 7 lie in
  the span of a plain token and in the span of a tag token.
\<close>

theorem spans_partition_counterexample:
  "tokenize_markup docstring_foreground ''hi[bold]'' =
     ([\<lparr>start = 2, end' = 8, plain = Some ''hi'', code = None, attribute = None\<rparr>,
       \<lparr>start = 2, end' = 8, plain = None, code = Some ''1'', attribute = Some STYLE\<rparr>],
      None)"
  by code_simp

text \<open>
  C3, amended. For every markup string that \<^verbatim>\<open>tokenize_markup\<close> accepts without error,
  the spans of the tokens cover exactly the bracket groups of the source: a position lies
  in the span of some token if and only if it lies in a match of \<^verbatim>\<open>RE_TAGS\<close>. Every
  token carries the span of a bracket group, not a span of its own: its end is the end of
  a match and its start lies in that match (this holds of the tokens yielded before an
  error as well); and every match is the span of at least one token. The matches are not
  empty, lie within the source and are disjoint and in increasing order, and the text of a
  match is its backslashes, the opening bracket, the tag text and the closing bracket. So
  a character outside every bracket group lies in no span, and a character inside a group
  may lie in the spans of several tokens: the plain text before the group and each tag of
  the group have the span of the group.
\<close>

theorem token_spans_are_group_spans:
  "(\<forall>t \<in> set (fst (tokenize_markup fg s)).
      \<exists>s0 e0 escapes tag_text. (s0, e0, escapes, tag_text) \<in> set (finditer_tags 0 s)
         \<and> s0 \<le> start t \<and> start t < e0 \<and> end' t = e0)
   \<and> (\<forall>(s0, e0, escapes, tag_text) \<in> set (finditer_tags 0 s).
         s0 < e0 \<and> e0 \<le> length s \<and> slice s s0 e0 = escapes @ ''['' @ tag_text @ '']'')
   \<and> sorted_wrt (\<lambda>(s0, e0, m) (s1, e1, m'). e0 \<le> s1) (finditer_tags 0 s)
   \<and> (snd (tokenize_markup fg s) = None \<longrightarrow>
         (\<forall>(s0, e0, escapes, tag_text) \<in> set (finditer_tags 0 s).
            \<exists>t \<in> set (fst (tokenize_markup fg s)). start t = s0 \<and> end' t = e0)
         \<and> (\<forall>i. (\<exists>t \<in> set (fst (tokenize_markup fg s)). start t \<le> i \<and> i < end' t)
                \<longleftrightarrow> (\<exists>(s0, e0, escapes, tag_text) \<in> set (finditer_tags 0 s).
                       s0 \<le> i \<and> i < e0)))"
proof -
  have b: "s0 < e0 \<and> e0 \<le> length s \<and> slice s s0 e0 = escapes @ ''['' @ tag_text @ '']''"
    if "(s0, e0, escapes, tag_text) \<in> set (finditer_tags 0 s)" for s0 e0 escapes tag_text
    using finditer_tags_bounds [OF that] by (simp add: slice_def)
  have a: "\<exists>s0 e0 escapes tag_text. (s0, e0, escapes, tag_text) \<in> set (finditer_tags 0 s)
         \<and> s0 \<le> start t \<and> start t < e0 \<and> end' t = e0"
    if "t \<in> set (fst (tokenize_markup fg s))" for t
  proof -
    from that markup_loop_spans [of t fg s "finditer_tags 0 s" 0 None]
    obtain s0 e0 escapes tag_text where
      m: "(s0, e0, escapes, tag_text) \<in> set (finditer_tags 0 s)"
      and sp: "s0 \<le> start t" "start t \<le> s0 + length escapes" "end' t = e0"
      by (auto simp: tokenize_markup_def)
    from finditer_tags_bounds [OF m]
    have "length (escapes @ ''['' @ tag_text @ '']'') \<le> e0 - s0"
      by (metis length_take min.cobounded2)
    with sp have "start t < e0" by simp
    with m sp show ?thesis by blast
  qed
  have c: "sorted_wrt (\<lambda>(s0, e0, m) (s1, e1, m'). e0 \<le> s1) (finditer_tags 0 s)"
    using finditer_tags_sorted [of 0 s]
    by (simp add: case_prod_unfold)
  have d: "\<exists>t \<in> set (fst (tokenize_markup fg s)). start t = s0 \<and> end' t = e0"
    if acc: "snd (tokenize_markup fg s) = None"
      and m: "(s0, e0, escapes, tag_text) \<in> set (finditer_tags 0 s)"
    for s0 e0 escapes tag_text
  proof -
    have "\<forall>m \<in> set (finditer_tags 0 s).
            snd (snd (snd m)) \<noteq> [] \<and> tag_start_char (hd (snd (snd (snd m))))"
      using finditer_tags_tag_text [of _ _ _ _ 0 s] by auto
    with markup_loop_covers [of fg s "finditer_tags 0 s" 0 None s0 e0 escapes tag_text] acc m
    show ?thesis by (simp add: tokenize_markup_def)
  qed
  have e: "(\<exists>t \<in> set (fst (tokenize_markup fg s)). start t \<le> i \<and> i < end' t)
             \<longleftrightarrow> (\<exists>(s0, e0, escapes, tag_text) \<in> set (finditer_tags 0 s). s0 \<le> i \<and> i < e0)"
    if acc: "snd (tokenize_markup fg s) = None" for i
  proof
    assume "\<exists>t \<in> set (fst (tokenize_markup fg s)). start t \<le> i \<and> i < end' t"
    then obtain t where t: "t \<in> set (fst (tokenize_markup fg s))" "start t \<le> i" "i < end' t"
      by blast
    from a [OF t(1)] obtain s0 e0 escapes tag_text where
      m: "(s0, e0, escapes, tag_text) \<in> set (finditer_tags 0 s)"
      and sp: "s0 \<le> start t" "end' t = e0"
      by blast
    from m sp t(2,3)
    show "\<exists>(s0, e0, escapes, tag_text) \<in> set (finditer_tags 0 s). s0 \<le> i \<and> i < e0"
      by (intro bexI [of _ "(s0, e0, escapes, tag_text)"]) auto
  next
    assume "\<exists>(s0, e0, escapes, tag_text) \<in> set (finditer_tags 0 s). s0 \<le> i \<and> i < e0"
    then obtain s0 e0 escapes tag_text where
      m: "(s0, e0, escapes, tag_text) \<in> set (finditer_tags 0 s)" and i: "s0 \<le> i" "i < e0"
      by auto
    from d [OF acc m] i
    show "\<exists>t \<in> set (fst (tokenize_markup fg s)). start t \<le> i \<and> i < end' t"
      by auto
  qed
  from d have d': "snd (tokenize_markup fg s) = None \<longrightarrow>
         (\<forall>(s0, e0, escapes, tag_text) \<in> set (finditer_tags 0 s).
            \<exists>t \<in> set (fst (tokenize_markup fg s)). start t = s0 \<and> end' t = e0)"
    by auto
  from a b c d' e show ?thesis by blast
qed

theorem token_spans_are_group_spans_witness:
  "plain_token 2 8 ''hi'' \<in> set (fst (tokenize_markup docstring_foreground ''hi[bold]''))
   \<and> (2, 8, [], ''bold'') \<in> set (finditer_tags 0 ''hi[bold]'')
   \<and> snd (tokenize_markup docstring_foreground ''hi[bold]'') = None
   \<and> (\<exists>s0 e0 escapes tag_text. (s0, e0, escapes, tag_text) \<in> set (finditer_tags 0 ''hi[bold]'')
         \<and> s0 \<le> start (plain_token 2 8 ''hi'') \<and> start (plain_token 2 8 ''hi'') < e0
         \<and> end' (plain_token 2 8 ''hi'') = e0)
   \<and> (2::nat) < 8 \<and> 8 \<le> length ''hi[bold]''
   \<and> slice ''hi[bold]'' 2 8 = [] @ ''['' @ ''bold'' @ '']''
   \<and> (\<exists>t \<in> set (fst (tokenize_markup docstring_foreground ''hi[bold]'')).
         start t = 2 \<and> end' t = 8)
   \<and> (\<exists>t \<in> set (fst (tokenize_markup docstring_foreground ''hi[bold]'')).
         start t \<le> 3 \<and> 3 < end' t)"
proof -
  have t: "plain_token 2 8 ''hi'' \<in> set (fst (tokenize_markup docstring_foreground ''hi[bold]''))"
    by code_simp
  have m: "(2, 8, [], ''bold'') \<in> set (finditer_tags 0 ''hi[bold]'')"
    by code_simp
  have acc: "snd (tokenize_markup docstring_foreground ''hi[bold]'') = None"
    by code_simp
  note th = token_spans_are_group_spans [of docstring_foreground "''hi[bold]''"]
  from th [THEN conjunct1, rule_format, OF t]
  have a: "\<exists>s0 e0 escapes tag_text. (s0, e0, escapes, tag_text) \<in> set (finditer_tags 0 ''hi[bold]'')
         \<and> s0 \<le> start (plain_token 2 8 ''hi'') \<and> start (plain_token 2 8 ''hi'') < e0
         \<and> end' (plain_token 2 8 ''hi'') = e0" .
  from th [THEN conjunct2, THEN conjunct1, rule_format, OF m]
  have b: "(2::nat) < 8 \<and> 8 \<le> length ''hi[bold]''
     \<and> slice ''hi[bold]'' 2 8 = [] @ ''['' @ ''bold'' @ '']''"
    by simp
  note cov = th [THEN conjunct2, THEN conjunct2, THEN conjunct2, rule_format, OF acc]
  from cov [THEN conjunct1, rule_format, OF m]
  have c: "\<exists>t \<in> set (fst (tokenize_markup docstring_foreground ''hi[bold]'')).
         start t = 2 \<and> end' t = 8"
    by simp
  have "\<exists>(s0, e0, escapes, tag_text) \<in> set (finditer_tags 0 ''hi[bold]''). s0 \<le> 3 \<and> 3 < e0"
    using m by (intro bexI [of _ "(2, 8, [], ''bold'')"]) auto
  with cov [THEN conjunct2, rule_format, of 3]
  have d: "\<exists>t \<in> set (fst (tokenize_markup docstring_foreground ''hi[bold]'')).
         start t \<le> 3 \<and> 3 < end' t"
    by blast
  from t m acc a b c d show ?thesis by blast
qed

subsection \<open>Both fields of a token\<close>

lemma tokenize_markup_one_field_aux:
  "t \<in> set (fst (markup_loop fg s ms position bound)) \<Longrightarrow> (plain t = None) \<noteq> (code t = None)"
proof (induction ms arbitrary: position bound)
  case Nil
  then show ?case
    by (auto simp: plain_token_def split: if_splits option.splits)
next
  case (Cons m ms)
  obtain s0 e0 escapes tag_text where m: "m = (s0, e0, escapes, tag_text)" by (cases m)
  define s1 where "s1 = (if length escapes div 2 > 0 then s0 + length escapes div 2 * 2 else s0)"
  from Cons.prems consider
    (head) "t \<in> {plain_token s0 e0 (slice s position s0),
                  plain_token s0 e0 (replicate (length escapes div 2) BSL),
                  plain_token s1 e0 (drop (length escapes) tag_text)}"
    | (tags) "t \<in> set (fst (tokenize_tags fg s1 e0 (split_ws tag_text)))"
    | (rest) "t \<in> set (fst (markup_loop fg s ms e0 (Some (s1, e0))))"
    unfolding m
    by (auto simp: Let_def yield_before_def s1_def split: if_splits prod.splits option.splits)
  then show ?case
  proof cases
    case head
    then show ?thesis by (auto simp: plain_token_def)
  next
    case tags
    from tokenize_tags_span [OF tags] show ?thesis by simp
  next
    case rest
    from Cons.IH [OF rest] show ?thesis .
  qed
qed

lemma tokenize_markup_one_field:
  "t \<in> set (fst (tokenize_markup fg s)) \<Longrightarrow> (plain t = None) \<noteq> (code t = None)"
  by (simp add: tokenize_markup_def tokenize_markup_one_field_aux)

subsection \<open>Inputs on which the code departs from its own documentation\<close>

text \<open>
  C2. The claim holds of \<^verbatim>\<open>tokenize_markup\<close> (lemma \<open>tokenize_markup_one_field\<close> above),
  and no token of \<^verbatim>\<open>tokenize_ansi\<close> has both fields. It fails in \<^verbatim>\<open>tokenize_ansi\<close>
  on a match of the second alternative of \<^verbatim>\<open>RE_ANSI\<close>: for \<^verbatim>\<open>ESC]0;t ESC\\<close> group 1 is
  absent and the token built from it has neither \<^verbatim>\<open>plain\<close> nor \<^verbatim>\<open>code\<close>.
\<close>

theorem osc_token_has_neither_field:
  "tokenize_ansi (ESC # '']0;t'' @ [ESC, BSL]) =
     [\<lparr>start = 0, end' = 7, plain = None, code = None, attribute = None\<rparr>,
      \<lparr>start = 7, end' = 11, plain = None, code = Some ''0'', attribute = None\<rparr>]"
  by code_simp

text \<open>
  C7. \<^verbatim>\<open>tokenize_markup\<close> raises \<^verbatim>\<open>UnboundLocalError\<close>, not \<^verbatim>\<open>SyntaxError\<close>, on a
  non-empty text without a bracket group: the token of the trailing text reads \<^verbatim>\<open>start\<close>
  and \<^verbatim>\<open>end\<close>, which only the loop body binds.
\<close>

theorem plain_text_raises_unbound_local:
  "tokenize_markup fg ''hi'' = ([], Some UnboundLocalError)
   \<and> markup_to_ansi fg ''hi'' = Inl UnboundLocalError"
proof -
  have "tokenize_markup fg ''hi'' = ([], Some UnboundLocalError)"
    by code_simp
  moreover have "markup_to_ansi fg ''hi'' = Inl UnboundLocalError"
    by code_simp
  ultimately show ?thesis by simp
qed

text \<open>
  C1. The round trip of \<^verbatim>\<open>[1;2;3]hi\<close> changes the color: \<^verbatim>\<open>markup_to_ansi\<close> gives the
  24-bit payload \<^verbatim>\<open>38;2;1;2;3\<close>, \<^verbatim>\<open>ansi_to_markup\<close> names it \<^verbatim>\<open>red\<close> (it looks the third
  field up in the table of names without reading the selector), and \<^verbatim>\<open>[red]\<close> resolves to
  the palette payload \<^verbatim>\<open>38;5;1\<close>.
\<close>

theorem round_trip_changes_rgb_color:
  "markup_to_ansi docstring_foreground ''[1;2;3]hi'' = Inr (ESC # ''[38;2;1;2;3mhi'' @ ESC # ''[0m'')
   \<and> ansi_to_markup docstring_foreground (ESC # ''[38;2;1;2;3mhi'' @ ESC # ''[0m'')
       = Inr ''[red]hi[/]''
   \<and> markup_to_ansi docstring_foreground ''[red]hi[/]'' = Inr (ESC # ''[38;5;1mhi'' @ ESC # ''[0m'')"
  by code_simp

subsection \<open>Runs that the statements above refer to\<close>

lemma docstring_example_round_trip:
  "markup_to_ansi docstring_foreground
     ''[@141 60 bold italic]Hello[/italic underline inverse]There!''
   = Inr (ESC # ''[48;5;141m'' @ ESC # ''[38;5;60m'' @ ESC # ''[1m'' @ ESC # ''[3mHello''
          @ ESC # ''[23m'' @ ESC # ''[4m'' @ ESC # ''[7mThere!'' @ ESC # ''[0m'')
   \<and> ansi_to_markup docstring_foreground
       (ESC # ''[48;5;141m'' @ ESC # ''[38;5;60m'' @ ESC # ''[1m'' @ ESC # ''[3mHello''
          @ ESC # ''[23m'' @ ESC # ''[4m'' @ ESC # ''[7mThere!'' @ ESC # ''[0m'')
     = Inr ''[@141 60 bold italic]Hello[/italic underline inverse]There![/]''"
  by code_simp

lemma unrecognized_tag_raises_syntax_error:
  "tokenize_markup docstring_foreground ''[notacolor notatag]''
     = ([], Some (SyntaxError ''notacolor''))"
  by code_simp

lemma short_composite_code_raises_syntax_error:
  "ansi_to_markup fg (ESC # ''[38;5m'') = Inl (SyntaxError ''38;5'')"
  by code_simp

lemma doubled_at_raises_key_error:
  "tokenize_markup docstring_foreground ''[@@red]'' = ([], Some (KeyError ''@red''))"
  by code_simp

lemma sgr_31_raises_index_error:
  "ansi_to_markup fg (ESC # ''[31m'') = Inl IndexError"
  by code_simp

lemma osc_sequence_raises_assertion_error:
  "ansi_to_markup fg (ESC # '']0;t'' @ [ESC, BSL]) = Inl AssertionError"
  by code_simp

end
